theory Spec2Isabelle
  imports Complex_Main
begin

section \<open>Numbers\<close>

text \<open>
  A JavaScript \<open>number\<close> is a double. The model keeps the four kinds of value a
  double has and idealises the finite ones as reals: rounding and the sign of zero are
  not represented. \<open>NaN\<close> absorbs every operation and fails every comparison, as in
  the language. The operators of the language are the operators of the type: \<open>+\<close>,
  \<open>-\<close>, \<open>*\<close>, \<open>/\<close>, \<open><\<close>, \<open>\<le>\<close>; on finite numbers they are exact. A finite
  result that leaves the range of the doubles is an infinity in the language: that is
  the function \<open>overflow\<close> below. It is applied where the program computes a
  factorial, a product of factorials or the sum of squares of a distance, the values
  that overflow on ordinary arguments: 171 control points, two end points 10^154 apart.
  The other operations are the exact ones, and the statements about the whole builder
  are made for requests whose boundaries and box widths are within the doubles. A zero
  divisor is read as \<open>+0\<close>; no call path of the program divides by a value that can
  be zero.
\<close>

datatype jsnum = Num real | PInf | NInf | NaN

instantiation jsnum :: "{zero, one, uminus, plus, minus, times, inverse, ord}"
begin

definition zero_jsnum :: jsnum where
  "zero_jsnum = Num 0"

definition one_jsnum :: jsnum where
  "one_jsnum = Num 1"

fun uminus_jsnum :: "jsnum \<Rightarrow> jsnum" where
  "uminus_jsnum (Num a) = Num (- a)"
| "uminus_jsnum PInf = NInf"
| "uminus_jsnum NInf = PInf"
| "uminus_jsnum NaN = NaN"

fun plus_jsnum :: "jsnum \<Rightarrow> jsnum \<Rightarrow> jsnum" where
  "plus_jsnum NaN b = NaN"
| "plus_jsnum a NaN = NaN"
| "plus_jsnum (Num a) (Num b) = Num (a + b)"
| "plus_jsnum PInf NInf = NaN"
| "plus_jsnum NInf PInf = NaN"
| "plus_jsnum PInf b = PInf"
| "plus_jsnum a PInf = PInf"
| "plus_jsnum NInf b = NInf"
| "plus_jsnum a NInf = NInf"

definition minus_jsnum :: "jsnum \<Rightarrow> jsnum \<Rightarrow> jsnum" where
  "minus_jsnum a b = a + (- b)"

fun times_jsnum :: "jsnum \<Rightarrow> jsnum \<Rightarrow> jsnum" where
  "times_jsnum NaN b = NaN"
| "times_jsnum a NaN = NaN"
| "times_jsnum (Num a) (Num b) = Num (a * b)"
| "times_jsnum (Num a) i = (if a = 0 then NaN else if 0 < a then i else - i)"
| "times_jsnum i (Num b) = (if b = 0 then NaN else if 0 < b then i else - i)"
| "times_jsnum PInf PInf = PInf"
| "times_jsnum PInf NInf = NInf"
| "times_jsnum NInf PInf = NInf"
| "times_jsnum NInf NInf = PInf"

fun divide_jsnum :: "jsnum \<Rightarrow> jsnum \<Rightarrow> jsnum" where
  "divide_jsnum NaN b = NaN"
| "divide_jsnum a NaN = NaN"
| "divide_jsnum (Num a) (Num b) =
     (if b \<noteq> 0 then Num (a / b)
      else if a = 0 then NaN else if 0 < a then PInf else NInf)"
| "divide_jsnum (Num a) i = Num 0"
| "divide_jsnum i (Num b) = (if 0 \<le> b then i else - i)"
| "divide_jsnum i j = NaN"

definition inverse_jsnum :: "jsnum \<Rightarrow> jsnum" where
  "inverse_jsnum a = divide (Num 1) a"

fun less_jsnum :: "jsnum \<Rightarrow> jsnum \<Rightarrow> bool" where
  "less_jsnum NaN b = False"
| "less_jsnum a NaN = False"
| "less_jsnum (Num a) (Num b) = (a < b)"
| "less_jsnum a NInf = False"
| "less_jsnum NInf b = True"
| "less_jsnum PInf b = False"
| "less_jsnum a PInf = True"

definition less_eq_jsnum :: "jsnum \<Rightarrow> jsnum \<Rightarrow> bool" where
  "less_eq_jsnum a b = (a < b \<or> (a = b \<and> a \<noteq> NaN))"

instance ..

end

text \<open>Numerals: addition is associative, so a literal is a sum of ones.\<close>

instance jsnum :: semigroup_add
proof
  fix a b c :: jsnum
  show "a + b + c = a + (b + c)"
    by (cases a; cases b; cases c) simp_all
qed

instance jsnum :: numeral ..

text \<open>A power with a literal exponent only writes a decimal literal such as \<open>0.15\<close>.\<close>

instance jsnum :: power ..

text \<open>Strict equality \<open>===\<close> on numbers: \<open>NaN\<close> equals nothing.\<close>

definition jeq :: "jsnum \<Rightarrow> jsnum \<Rightarrow> bool" where
  "jeq a b = (a = b \<and> a \<noteq> NaN)"

text \<open>\<open>Math.max\<close> and \<open>Math.min\<close> of two arguments.\<close>

definition Math_max :: "jsnum \<Rightarrow> jsnum \<Rightarrow> jsnum" where
  "Math_max a b = (if a = NaN \<or> b = NaN then NaN else if a < b then b else a)"

definition Math_min :: "jsnum \<Rightarrow> jsnum \<Rightarrow> jsnum" where
  "Math_min a b = (if a = NaN \<or> b = NaN then NaN else if b < a then b else a)"

fun Math_floor :: "jsnum \<Rightarrow> jsnum" where
  "Math_floor (Num a) = Num (of_int \<lfloor>a\<rfloor>)"
| "Math_floor a = a"

fun Math_sqrt :: "jsnum \<Rightarrow> jsnum" where
  "Math_sqrt (Num a) = (if a < 0 then NaN else Num (sqrt a))"
| "Math_sqrt PInf = PInf"
| "Math_sqrt a = NaN"

fun Math_log :: "jsnum \<Rightarrow> jsnum" where
  "Math_log (Num a) = (if a < 0 then NaN else if a = 0 then NInf else Num (ln a))"
| "Math_log PInf = PInf"
| "Math_log a = NaN"

fun Math_cos :: "jsnum \<Rightarrow> jsnum" where
  "Math_cos (Num a) = Num (cos a)"
| "Math_cos a = NaN"

fun Math_sin :: "jsnum \<Rightarrow> jsnum" where
  "Math_sin (Num a) = Num (sin a)"
| "Math_sin a = NaN"

definition Math_PI :: jsnum where
  "Math_PI = Num pi"

text \<open>
  \<open>Math.pow(b, k)\<close> for an exponent that is a non-negative integer: the literal 2 and
  the loop counters of the Bernstein basis. A zero exponent gives 1 for every base,
  \<open>NaN\<close> included.
\<close>

fun Math_pow :: "jsnum \<Rightarrow> nat \<Rightarrow> jsnum" where
  "Math_pow b 0 = Num 1"
| "Math_pow (Num a) k = Num (a ^ k)"
| "Math_pow PInf k = PInf"
| "Math_pow NInf k = (if even k then PInf else NInf)"
| "Math_pow NaN k = NaN"

text \<open>\<open>Math.pow(2, e)\<close>, the only power with an exponent that is not an integer.\<close>

fun Math_pow2 :: "jsnum \<Rightarrow> jsnum" where
  "Math_pow2 (Num a) = Num (2 powr a)"
| "Math_pow2 PInf = PInf"
| "Math_pow2 NInf = Num 0"
| "Math_pow2 NaN = NaN"

fun Number_isInteger :: "jsnum \<Rightarrow> bool" where
  "Number_isInteger (Num a) = (of_int \<lfloor>a\<rfloor> = a)"
| "Number_isInteger a = False"

text \<open>How often a counting loop \<open>for (i = 0; i < n; i++)\<close> runs when \<open>n\<close> is finite.\<close>

fun iterations :: "jsnum \<Rightarrow> nat" where
  "iterations (Num a) = nat \<lceil>a\<rceil>"
| "iterations a = 0"


definition OVERFLOW :: real where
  "OVERFLOW = 2 ^ 1024 - 2 ^ 970"

fun overflow :: "jsnum \<Rightarrow> jsnum" where
  "overflow (Num a) = (if OVERFLOW \<le> a then PInf else if a \<le> - OVERFLOW then NInf else Num a)"
| "overflow a = a"

section \<open>Points, arrays and results\<close>

datatype vector = Vector (vx: jsnum) (vy: jsnum)

text \<open>
  What an array of points can hold at run time: a point, the empty object that spreading
  \<open>undefined\<close> produces, or \<open>undefined\<close> itself (a read past the end).
\<close>

datatype slot = Point vector | EmptyObject | Undefined

fun the_point :: "slot \<Rightarrow> vector" where
  "the_point (Point v) = v"
| "the_point s = Vector NaN NaN"

text \<open>An array read \<open>xs[i]\<close> at an integer: \<open>None\<close> is \<open>undefined\<close>.\<close>

definition at_index :: "'a list \<Rightarrow> int \<Rightarrow> 'a option" where
  "at_index xs i = (if 0 \<le> i \<and> i < int (length xs) then Some (xs ! nat i) else None)"

text \<open>An array read at a number: every key that is not an index of the array is absent.\<close>

fun at_number :: "'a list \<Rightarrow> jsnum \<Rightarrow> 'a option" where
  "at_number xs (Num a) = (if of_int \<lfloor>a\<rfloor> = a then at_index xs \<lfloor>a\<rfloor> else None)"
| "at_number xs a = None"

definition slot_at :: "slot list \<Rightarrow> int \<Rightarrow> slot" where
  "slot_at xs i = (case at_index xs i of None \<Rightarrow> Undefined | Some s \<Rightarrow> s)"

text \<open>The copy \<open>{ ...p }\<close>: spreading \<open>undefined\<close> gives the empty object.\<close>

fun spread :: "vector option \<Rightarrow> slot" where
  "spread (Some p) = Point p"
| "spread None = EmptyObject"

datatype error = Error string | TypeError

datatype 'a outcome = Returns 'a | Throws error | Diverges

fun and_then :: "'a outcome \<Rightarrow> ('a \<Rightarrow> 'b outcome) \<Rightarrow> 'b outcome" where
  "and_then (Returns a) f = f a"
| "and_then (Throws e) f = Throws e"
| "and_then Diverges f = Diverges"

text \<open>A loop that pushes one element per index and stops at the first throw.\<close>

fun collect :: "('i \<Rightarrow> 'a outcome) \<Rightarrow> 'i list \<Rightarrow> 'a list outcome" where
  "collect f [] = Returns []"
| "collect f (i # rest) =
     and_then (f i) (\<lambda>a. and_then (collect f rest) (\<lambda>as. Returns (a # as)))"

text \<open>
  \<open>Math.random()\<close>: the sequence of draws is a parameter, and every function that
  draws takes the position of the next draw and returns the position it leaves.
\<close>

type_synonym rng = "nat \<Rightarrow> real"

section \<open>The easing catalog\<close>

type_synonym TweeningFunction = "jsnum \<Rightarrow> jsnum"

text \<open>
  The functions of \<open>tweening.ts\<close>, in its order. \<open>linear\<close> is written \<open>linear_tween\<close>
  here, the name being taken in the logic.
\<close>

definition linear_tween :: TweeningFunction where
  "linear_tween t = t"

definition easeInQuad :: TweeningFunction where
  "easeInQuad t = t * t"


definition easeInOutQuad :: TweeningFunction where
  "easeInOutQuad t = (if t < 0.5 then 2 * t * t else - 1 + (4 - 2 * t) * t)"

definition easeInCubic :: TweeningFunction where
  "easeInCubic t = t * t * t"

definition easeOutCubic :: TweeningFunction where
  "easeOutCubic t = (let t1 = t - 1 in t1 * t1 * t1 + 1)"

definition easeInOutCubic :: TweeningFunction where
  "easeInOutCubic t =
     (if t < 0.5 then 4 * t * t * t
      else let t1 = 2 * t - 2 in (t1 * t1 * t1 + 2) / 2)"

definition easeInQuart :: TweeningFunction where
  "easeInQuart t = t * t * t * t"

definition easeOutQuart :: TweeningFunction where
  "easeOutQuart t = (let t1 = t - 1 in 1 - t1 * t1 * t1 * t1)"

definition easeInOutQuart :: TweeningFunction where
  "easeInOutQuart t =
     (if t < 0.5 then 8 * t * t * t * t
      else let t1 = t - 1 in 1 - 8 * t1 * t1 * t1 * t1)"

definition easeInQuint :: TweeningFunction where
  "easeInQuint t = t * t * t * t * t"

definition easeOutQuint :: TweeningFunction where
  "easeOutQuint t = (let t1 = t - 1 in 1 + t1 * t1 * t1 * t1 * t1)"

definition easeInOutQuint :: TweeningFunction where
  "easeInOutQuint t =
     (if t < 0.5 then 16 * t * t * t * t * t
      else let t1 = t - 1 in 1 + 16 * t1 * t1 * t1 * t1 * t1)"

definition easeInSine :: TweeningFunction where
  "easeInSine t = 1 - Math_cos ((t * Math_PI) / 2)"

definition easeOutSine :: TweeningFunction where
  "easeOutSine t = Math_sin ((t * Math_PI) / 2)"

definition easeInOutSine :: TweeningFunction where
  "easeInOutSine t = - (Math_cos (Math_PI * t) - 1) / 2"

definition easeInExpo :: TweeningFunction where
  "easeInExpo t = (if jeq t 0 then 0 else Math_pow2 (10 * t - 10))"

definition easeOutExpo :: TweeningFunction where
  "easeOutExpo t = (if jeq t 1 then 1 else 1 - Math_pow2 (- 10 * t))"

definition easeInOutExpo :: TweeningFunction where
  "easeInOutExpo t =
     (if jeq t 0 then 0
      else if jeq t 1 then 1
      else if t < 0.5 then Math_pow2 (20 * t - 10) / 2
      else (2 - Math_pow2 (- 20 * t + 10)) / 2)"

definition easeInCirc :: TweeningFunction where
  "easeInCirc t = 1 - Math_sqrt (1 - Math_pow t 2)"

definition easeOutCirc :: TweeningFunction where
  "easeOutCirc t = Math_sqrt (1 - Math_pow (t - 1) 2)"

definition easeInOutCirc :: TweeningFunction where
  "easeInOutCirc t =
     (if t < 0.5 then (1 - Math_sqrt (1 - Math_pow (2 * t) 2)) / 2
      else (Math_sqrt (1 - Math_pow (- 2 * t + 2) 2) + 1) / 2)"

definition TWEEN_OPTIONS :: "TweeningFunction list" where
  "TWEEN_OPTIONS =
     [easeOutExpo, easeInOutQuint, easeInOutSine, easeInOutQuart, easeInOutExpo,
      easeInOutCubic, easeInOutCirc, linear_tween, easeOutSine, easeOutQuart,
      easeOutQuint, easeOutCubic, easeOutCirc]"

section \<open>The Bezier evaluator\<close>








section \<open>The trajectory builder\<close>



definition checkIfNumeric :: "jsnum \<Rightarrow> bool" where
  "checkIfNumeric val = (val \<noteq> NaN)"

fun checkPoint :: "slot \<Rightarrow> bool" where
  "checkPoint (Point p) = (checkIfNumeric (vx p) \<and> checkIfNumeric (vy p))"
| "checkPoint s = False"

definition checkIfListOfPoints :: "slot list \<Rightarrow> bool" where
  "checkIfListOfPoints listOfPoints = list_all checkPoint listOfPoints"

fun knots_loop :: "rng \<Rightarrow> jsnum \<Rightarrow> jsnum \<Rightarrow> jsnum \<Rightarrow> jsnum \<Rightarrow> nat \<Rightarrow> nat \<Rightarrow> slot list \<times> nat" where
  "knots_loop rnd lBoundary rBoundary dBoundary uBoundary 0 k = ([], k)"
| "knots_loop rnd lBoundary rBoundary dBoundary uBoundary (Suc n) k =
     (let x = Math_floor (Num (rnd k) * (rBoundary - lBoundary + 1)) + lBoundary;
          y = Math_floor (Num (rnd (k + 1)) * (uBoundary - dBoundary + 1)) + dBoundary;
          (knots, k') = knots_loop rnd lBoundary rBoundary dBoundary uBoundary n (k + 2)
      in (Point (Vector x y) # knots, k'))"

definition generateInternalKnots ::
  "rng \<Rightarrow> nat \<Rightarrow> jsnum \<Rightarrow> jsnum \<Rightarrow> jsnum \<Rightarrow> jsnum \<Rightarrow> jsnum \<Rightarrow> (slot list \<times> nat) outcome" where
  "generateInternalKnots rnd k lBoundary rBoundary dBoundary uBoundary knotsCount' =
     (if \<not> checkIfNumeric lBoundary \<or> \<not> checkIfNumeric rBoundary \<or>
         \<not> checkIfNumeric dBoundary \<or> \<not> checkIfNumeric uBoundary
      then Throws (Error ''Boundaries must be numeric values'')
      else
        let count = (if \<not> Number_isInteger knotsCount' \<or> knotsCount' < 0 then 0 else knotsCount')
        in
          if lBoundary > rBoundary
          then Throws (Error ''left_boundary must be less than or equal to right_boundary'')
          else if dBoundary > uBoundary
          then Throws (Error ''down_boundary must be less than or equal to upper_boundary'')
          else Returns (knots_loop rnd lBoundary rBoundary dBoundary uBoundary (iterations count) k))"


text \<open>The Box-Muller transform: two draws.\<close>

definition randomNormal :: "rng \<Rightarrow> nat \<Rightarrow> jsnum \<Rightarrow> jsnum \<Rightarrow> jsnum \<times> nat" where
  "randomNormal rnd k mean stdDev =
     (let u1 = Num (rnd k);
          u2 = Num (rnd (k + 1));
          z0 = Math_sqrt (- 2 * Math_log u1) * Math_cos (2 * Math_PI * u2)
      in (z0 * stdDev + mean, k + 2))"

text \<open>The distortion loop over the interior points, in order.\<close>

fun distort_loop :: "rng \<Rightarrow> jsnum \<Rightarrow> jsnum \<Rightarrow> jsnum \<Rightarrow> vector list \<Rightarrow> nat \<Rightarrow> slot list \<times> nat" where
  "distort_loop rnd mean stDev frequency [] k = ([], k)"
| "distort_loop rnd mean stDev frequency (p # ps) k =
     (let (delta, k1) =
            (if Num (rnd k) < frequency then randomNormal rnd (k + 1) mean stDev
             else (0, k + 1));
          (rest, k2) = distort_loop rnd mean stDev frequency ps k1
      in (Point (Vector (vx p) (vy p + delta)) # rest, k2))"

definition distortPoints ::
  "rng \<Rightarrow> nat \<Rightarrow> slot list \<Rightarrow> jsnum \<Rightarrow> jsnum \<Rightarrow> jsnum \<Rightarrow> (slot list \<times> nat) outcome" where
  "distortPoints rnd k points mean stDev frequency =
     (if \<not> checkIfNumeric mean \<or> \<not> checkIfNumeric stDev \<or> \<not> checkIfNumeric frequency
      then Throws (Error ''Distortions must be numeric'')
      else if \<not> checkIfListOfPoints points
      then Throws (Error ''points must be valid list of points'')
      else if frequency < 0 \<or> frequency > 1
      then Throws (Error ''distortion_frequency must be in range [0,1]'')
      else
        let (inner, k') =
              distort_loop rnd mean stDev frequency (map the_point (butlast (tl points))) k
        in Returns (slot_at points 0 # inner @ [slot_at points (int (length points) - 1)], k'))"

text \<open>The body of the resampling loop at index \<open>i\<close>; the array has passed the check.\<close>

definition tween_point :: "vector list \<Rightarrow> TweeningFunction \<Rightarrow> jsnum \<Rightarrow> nat \<Rightarrow> slot outcome" where
  "tween_point points tween target i =
     (if i = 0 then Returns (spread (at_index points 0))
      else if jeq (Num (real i)) (target - 1)
      then Returns (spread (at_index points (int (length points) - 1)))
      else
        let t = Num (real i) / (target - 1);
            tweenedT = tween t;
            continuousIndex = tweenedT * Num (real_of_int (int (length points) - 1));
            lowerIndex = Math_floor continuousIndex;
            upperIndex = Math_min (lowerIndex + 1) (Num (real_of_int (int (length points) - 1)));
            fraction = continuousIndex - lowerIndex
        in case at_number points lowerIndex of
             None \<Rightarrow> Throws TypeError
           | Some lowerPoint \<Rightarrow>
               (case at_number points upperIndex of
                  None \<Rightarrow> Throws TypeError
                | Some upperPoint \<Rightarrow>
                    Returns (Point (Vector
                      (vx lowerPoint + (vx upperPoint - vx lowerPoint) * fraction)
                      (vy lowerPoint + (vy upperPoint - vy lowerPoint) * fraction)))))"

definition tweenPoints :: "slot list \<Rightarrow> TweeningFunction \<Rightarrow> jsnum \<Rightarrow> slot list outcome" where
  "tweenPoints points tween target =
     (if \<not> checkIfListOfPoints points then Throws (Error ''List of points not valid'')
      else if \<not> Number_isInteger target \<or> target < 2
      then Throws (Error ''target_points must be an integer greater or equal to 2'')
      else if Num (real (length points)) \<le> target then Returns points
      else collect (tween_point (map the_point points) tween target) [0..<iterations target])"



section \<open>The parameter generator\<close>

record RandomCurveParameters =
  p_offsetBoundaryX :: jsnum
  p_offsetBoundaryY :: jsnum
  p_knotsCount :: jsnum
  p_distortionMean :: jsnum
  p_distortionStDev :: jsnum
  p_distortionFrequency :: jsnum
  p_tween :: "TweeningFunction option"
  p_targetPoints :: jsnum

text \<open>
  The scan of the weighted choice. A weight read past the end of its array is
  \<open>undefined\<close>, which turns the running value into \<open>NaN\<close>. \<open>None\<close>: the scan ended
  without a choice.
\<close>

fun choice_loop :: "'a list \<Rightarrow> jsnum list \<Rightarrow> jsnum \<Rightarrow> 'a option" where
  "choice_loop [] weights random = None"
| "choice_loop (item # items) weights random =
     (let random' = random - (case weights of [] \<Rightarrow> NaN | w # ws \<Rightarrow> w)
      in if random' \<le> 0 then Some item else choice_loop items (tl weights) random')"

text \<open>\<open>None\<close> is \<open>undefined\<close>: the last element of an empty array.\<close>

definition weightedRandomChoice :: "rng \<Rightarrow> nat \<Rightarrow> 'a list \<Rightarrow> jsnum list \<Rightarrow> 'a option \<times> nat" where
  "weightedRandomChoice rnd k items weights =
     (let totalWeight = foldl (\<lambda>sum w. sum + w) 0 weights;
          random = Num (rnd k) * totalWeight
      in (case choice_loop items weights random of
            Some item \<Rightarrow> Some item
          | None \<Rightarrow> at_index items (int (length items) - 1),
          k + 1))"

definition randomFromRange :: "rng \<Rightarrow> nat \<Rightarrow> jsnum \<Rightarrow> jsnum \<Rightarrow> jsnum \<times> nat" where
  "randomFromRange rnd k min' max' =
     (Math_floor (Num (rnd k) * (max' - min' + 1)) + min', k + 1)"

text \<open>A range object \<open>{ min, max }\<close> is a pair; reading a field of \<open>undefined\<close> throws.\<close>

definition range_draw :: "rng \<Rightarrow> nat \<Rightarrow> (jsnum \<times> jsnum) option \<Rightarrow> (jsnum \<times> nat) outcome" where
  "range_draw rnd k selected =
     (case selected of
        None \<Rightarrow> Throws TypeError
      | Some (min', max') \<Rightarrow> Returns (randomFromRange rnd k min' max'))"

definition generateRandomCurveParameters ::
  "vector \<Rightarrow> vector \<Rightarrow> rng \<Rightarrow> nat \<Rightarrow> (RandomCurveParameters \<times> nat) outcome" where
  "generateRandomCurveParameters preOrigin postDestination rnd k =
     (let tween = at_number TWEEN_OPTIONS
                    (Math_floor (Num (rnd k) * Num (real (length TWEEN_OPTIONS))));
          offsetBoundaryXRanges = [(20, 44), (45, 74), (75, 99)];
          offsetBoundaryXWeights = [0.2, 0.65, 15];
          (selectedXRange, k1) =
            weightedRandomChoice rnd (k + 1) offsetBoundaryXRanges offsetBoundaryXWeights
      in and_then (range_draw rnd k1 selectedXRange)
        (\<lambda>(offsetX, k2).
     let offsetBoundaryYRanges = [(20, 44), (45, 74), (75, 99)];
         offsetBoundaryYWeights = [0.2, 0.65, 15];
         (selectedYRange, k3) =
           weightedRandomChoice rnd k2 offsetBoundaryYRanges offsetBoundaryYWeights
      in and_then (range_draw rnd k3 selectedYRange)
        (\<lambda>(offsetY, k4).
     let knotsOptions = [1, 2, 3, 4, 5, 6, 7, 8, 9, 10];
         knotsWeights = [0.15, 0.36, 0.17, 0.12, 0.08, 0.04, 0.03, 0.02, 0.015, 0.005];
         (chosenKnots, k5) = weightedRandomChoice rnd k4 knotsOptions knotsWeights;
         knots = (case chosenKnots of None \<Rightarrow> NaN | Some c \<Rightarrow> c);
         (mean100, k6) = randomFromRange rnd k5 80 109;
         mean = mean100 / 100;
         (stDev100, k7) = randomFromRange rnd k6 85 109;
         stDev = stDev100 / 100;
         (frequency100, k8) = randomFromRange rnd k7 25 69;
         frequency = frequency100 / 100;
         targetPointsRanges = [(35, 44), (45, 59), (60, 79)];
         targetPointsWeights = [0.53, 0.32, 0.15];
         (selectedPointsRange, k9) =
           weightedRandomChoice rnd k8 targetPointsRanges targetPointsWeights
      in and_then (range_draw rnd k9 selectedPointsRange)
        (\<lambda>(target, k10).
     let distance =
           Math_sqrt (overflow (Math_pow (vx postDestination - vx preOrigin) 2 +
                                Math_pow (vy postDestination - vy preOrigin) 2));
         minBoundary = Math_max 30 (distance * 0.15)
      in Returns
        (\<lparr>p_offsetBoundaryX = Math_max offsetX minBoundary,
          p_offsetBoundaryY = Math_max offsetY minBoundary,
          p_knotsCount = Math_max knots 2,
          p_distortionMean = mean,
          p_distortionStDev = stDev,
          p_distortionFrequency = frequency,
          p_tween = tween,
          p_targetPoints = target\<rparr>, k10)))))"

section \<open>Vocabulary of the statements\<close>



text \<open>
  The contract of an easing function: positions strictly inside the unit interval are
  mapped into the unit interval.
\<close>

definition unit_easing :: "TweeningFunction \<Rightarrow> bool" where
  "unit_easing tween = (\<forall>t. 0 < t \<and> t < 1 \<longrightarrow> (\<exists>v. tween (Num t) = Num v \<and> 0 \<le> v \<and> v \<le> 1))"

text \<open>Finite numbers, points and slots; draws strictly inside the unit interval.\<close>

fun is_finite :: "jsnum \<Rightarrow> bool" where
  "is_finite (Num a) = True"
| "is_finite a = False"

definition finite_point :: "vector \<Rightarrow> bool" where
  "finite_point p = (is_finite (vx p) \<and> is_finite (vy p))"



text \<open>
  The names the builder gives its resolved parameters: the distance of the end points,
  the number of coarse samples, and each option with its fallback.
\<close>

definition distance_between :: "vector \<Rightarrow> vector \<Rightarrow> jsnum" where
  "distance_between fromPoint toPoint =
     Math_sqrt (overflow (Math_pow (vx toPoint - vx fromPoint) 2 +
                          Math_pow (vy toPoint - vy fromPoint) 2))"




















text \<open>
  The contract of the easing catalog on the unit interval: the ends are fixed, every
  position has a finite image in the unit interval, and the images are ordered as the
  positions are.
\<close>

definition easing_contract :: "TweeningFunction \<Rightarrow> bool" where
  "easing_contract f =
     (f 0 = 0 \<and> f 1 = 1 \<and>
      (\<forall>s t. 0 \<le> s \<and> s \<le> t \<and> t \<le> 1 \<longrightarrow>
         (\<exists>u v. f (Num s) = Num u \<and> f (Num t) = Num v \<and> 0 \<le> u \<and> u \<le> v \<and> v \<le> 1)))"

text \<open>Every draw is a number of the half-open unit interval, as \<open>Math.random\<close> promises.\<close>

definition unit_draws :: "rng \<Rightarrow> bool" where
  "unit_draws rnd = (\<forall>n. 0 \<le> rnd n \<and> rnd n < 1)"



text \<open>The least offset the generator allows for a movement, \<open>minBoundary\<close>.\<close>

definition min_boundary :: "vector \<Rightarrow> vector \<Rightarrow> jsnum" where
  "min_boundary preOrigin postDestination =
     Math_max 30 (distance_between preOrigin postDestination * 0.15)"

text \<open>
  The draw of the weighted choice above which the scan of the weights 0.2, 0.65 and 15
  reaches the third tier.
\<close>

definition high_tier_threshold :: real where
  "high_tier_threshold = (0.2 + 0.65) / (0.2 + 0.65 + 15)"

text \<open>A knot inside the boundaries, up to the overshoot of less than one.\<close>

definition knot_within :: "real \<Rightarrow> real \<Rightarrow> real \<Rightarrow> real \<Rightarrow> slot \<Rightarrow> bool" where
  "knot_within l r d u s =
     (\<exists>x y. s = Point (Vector (Num x) (Num y)) \<and> l \<le> x \<and> x < r + 1 \<and> d \<le> y \<and> y < u + 1 \<and>
            (of_int \<lfloor>r - l\<rfloor> = r - l \<longrightarrow> x \<le> r) \<and> (of_int \<lfloor>u - d\<rfloor> = u - d \<longrightarrow> y \<le> u))"

section \<open>Arithmetic on finite numbers\<close>

lemma numeral_jsnum [simp]: "(numeral n :: jsnum) = Num (numeral n)"
proof (induction n)
  case One
  show ?case by (simp only: numeral_One one_jsnum_def)
next
  case (Bit0 n)
  have "(numeral (num.Bit0 n) :: jsnum) = numeral n + numeral n" by (rule numeral_Bit0)
  also have "\<dots> = Num (numeral n + numeral n)" by (simp only: Bit0 plus_jsnum.simps)
  also have "\<dots> = Num (numeral (num.Bit0 n))" by (simp only: numeral_Bit0)
  finally show ?case .
next
  case (Bit1 n)
  have "(numeral (num.Bit1 n) :: jsnum) = numeral n + numeral n + 1" by (rule numeral_Bit1)
  also have "\<dots> = Num (numeral n + numeral n + 1)" by (simp only: Bit1 plus_jsnum.simps one_jsnum_def)
  also have "\<dots> = Num (numeral (num.Bit1 n))" by (simp only: numeral_Bit1)
  finally show ?case .
qed

lemma zero_Num [simp]: "(0::jsnum) = Num 0" by (simp add: zero_jsnum_def)
lemma one_Num [simp]: "(1::jsnum) = Num 1" by (simp add: one_jsnum_def)
lemma minus_Num [simp]: "Num a - Num b = Num (a - b)" by (simp add: minus_jsnum_def)
lemma le_Num [simp]: "(Num a \<le> Num b) = (a \<le> b)" by (auto simp: less_eq_jsnum_def)
lemma power_Num [simp]: "Num a ^ n = Num (a ^ n)" by (induction n) simp_all
lemma Math_max_Num [simp]: "Math_max (Num a) (Num b) = Num (max a b)" by (simp add: Math_max_def max_def)
lemma Math_min_Num [simp]: "Math_min (Num a) (Num b) = Num (min a b)" by (simp add: Math_min_def min_def)
lemma jeq_Num [simp]: "jeq (Num a) (Num b) = (a = b)" by (simp add: jeq_def)
lemma Math_pow_Num [simp]: "Math_pow (Num a) k = Num (a ^ k)" by (cases k) simp_all
lemma Math_PI_Num [simp]: "Math_PI = Num pi" by (simp add: Math_PI_def)

lemma OVERFLOW_pos: "0 < OVERFLOW"
  by (simp add: OVERFLOW_def)

lemma overflow_in_range:
  assumes "0 \<le> a" and "a < OVERFLOW"
  shows "overflow (Num a) = Num a"
proof -
  have "\<not> a \<le> - OVERFLOW" using assms(1) OVERFLOW_pos by linarith
  then show ?thesis using assms(2) by simp
qed

lemma overflow_out_of_range: "OVERFLOW \<le> a \<Longrightarrow> overflow (Num a) = PInf"
  by simp



section \<open>The Bezier evaluator samples the Bernstein sum\<close>



















lemma at_index_first: "xs \<noteq> [] \<Longrightarrow> at_index xs 0 = Some (hd xs)"
  by (cases xs) (simp_all add: at_index_def)

lemma at_index_last: "xs \<noteq> [] \<Longrightarrow> at_index xs (int (length xs) - 1) = Some (last xs)"
  by (cases xs rule: rev_cases) (simp_all add: at_index_def nth_append)








section \<open>Distortion touches the y-coordinate only\<close>

lemma distort_loop_length:
  "length (fst (distort_loop rnd mean stDev frequency ps k)) = length ps"
  by (induction ps arbitrary: k) (simp_all add: split_beta Let_def)

lemma distort_loop_nth:
  "i < length ps \<Longrightarrow>
   \<exists>q. fst (distort_loop rnd mean stDev frequency ps k) ! i = Point q \<and> vx q = vx (ps ! i)"
proof (induction ps arbitrary: k i)
  case Nil
  then show ?case by simp
next
  case (Cons p ps)
  show ?case
  proof (cases i)
    case 0
    then show ?thesis by (simp add: split_beta Let_def)
  next
    case (Suc j)
    then have "j < length ps" using Cons.prems by simp
    from Cons.IH[OF this] show ?thesis using Suc
      by (simp add: split_beta Let_def)
  qed
qed

lemma checkIfListOfPoints_nth:
  "checkIfListOfPoints points \<Longrightarrow> i < length points \<Longrightarrow>
     \<exists>p. points ! i = Point p \<and> vx p \<noteq> NaN \<and> vy p \<noteq> NaN"
  unfolding checkIfListOfPoints_def list_all_length
  by (metis checkIfNumeric_def checkPoint.elims(2) slot.inject)

lemma slot_at_nth: "i < length xs \<Longrightarrow> slot_at xs (int i) = xs ! i"
  by (simp add: slot_at_def at_index_def)

lemma slot_at_last: "xs \<noteq> [] \<Longrightarrow> slot_at xs (int (length xs) - 1) = last xs"
  by (cases xs rule: rev_cases) (simp_all add: slot_at_def at_index_def nth_append)

lemma slot_at_first: "xs \<noteq> [] \<Longrightarrow> slot_at xs 0 = hd xs"
  by (cases xs) (simp_all add: slot_at_def at_index_def)


lemma distortPoints_returns:
  assumes "checkIfNumeric mean" and "checkIfNumeric stDev" and "checkIfNumeric frequency"
    and "checkIfListOfPoints points" and "\<not> frequency < 0" and "\<not> frequency > 1"
  shows "distortPoints rnd k points mean stDev frequency =
     Returns (slot_at points 0 #
              fst (distort_loop rnd mean stDev frequency (map the_point (butlast (tl points))) k) @
              [slot_at points (int (length points) - 1)],
              snd (distort_loop rnd mean stDev frequency (map the_point (butlast (tl points))) k))"
  using assms by (simp add: distortPoints_def split_beta)

text \<open>
  Claim C8. On every input that passes the checks of \<open>distortPoints\<close>, and for every
  sequence of draws, each input point keeps its x-coordinate at its index, and the first
  and the last output are the first and the last input unchanged. The output has the
  length of the input when that is at least two; a shorter input still gives two slots,
  the first and the last input.
\<close>

theorem distortPoints_touches_y_only:
  assumes "checkIfNumeric mean" and "checkIfNumeric stDev" and "checkIfNumeric frequency"
    and "checkIfListOfPoints points" and "\<not> frequency < 0" and "\<not> frequency > 1"
  shows "\<exists>out k'. distortPoints rnd k points mean stDev frequency = Returns (out, k') \<and>
           length out = max 2 (length points) \<and>
           (\<forall>i<length points. \<exists>p q. points ! i = Point p \<and> out ! i = Point q \<and> vx q = vx p) \<and>
           (points \<noteq> [] \<longrightarrow> hd out = hd points \<and> last out = last points)"
proof -
  let ?mid = "map the_point (butlast (tl points))"
  let ?inner = "fst (distort_loop rnd mean stDev frequency ?mid k)"
  let ?out = "slot_at points 0 # ?inner @ [slot_at points (int (length points) - 1)]"
  have len_inner: "length ?inner = length points - 2"
    by (simp add: distort_loop_length)
  have ret: "distortPoints rnd k points mean stDev frequency =
      Returns (?out, snd (distort_loop rnd mean stDev frequency ?mid k))"
    using assms by (rule distortPoints_returns)
  have len: "length ?out = max 2 (length points)"
    using len_inner by simp
  have xs: "\<exists>p q. points ! i = Point p \<and> ?out ! i = Point q \<and> vx q = vx p"
    if i: "i < length points" for i
  proof -
    obtain p where p: "points ! i = Point p"
      using checkIfListOfPoints_nth[OF assms(4) i] by blast
    consider "i = 0" | "0 < i" "i = length points - 1" | "0 < i" "i < length points - 1"
      using i by linarith
    then show ?thesis
    proof cases
      case 1
      then show ?thesis using p i slot_at_nth[of 0 points] by simp
    next
      case 2
      then have "i = Suc (length ?inner)"
        using len_inner by linarith
      then have "?out ! i = slot_at points (int (length points) - 1)"
        by (simp only: nth_Cons_Suc nth_append_length)
      also have "\<dots> = points ! i"
        using 2 i slot_at_nth[of i points] by (simp add: of_nat_diff)
      finally show ?thesis using p by simp
    next
      case 3
      then have j: "i - 1 < length ?mid" by simp
      from distort_loop_nth[OF this, of rnd mean stDev frequency k]
      obtain q where q: "?inner ! (i - 1) = Point q" "vx q = vx (?mid ! (i - 1))" by blast
      have "?mid ! (i - 1) = the_point (points ! i)"
        using 3 i by (simp add: nth_butlast nth_tl)
      moreover have "i - 1 < length ?inner"
        using 3 len_inner by linarith
      then have "?out ! i = ?inner ! (i - 1)"
        using 3(1) by (simp only: nth_Cons_pos nth_append if_True)
      ultimately show ?thesis using p q by simp
    qed
  qed
  have ends: "hd ?out = hd points \<and> last ?out = last points" if "points \<noteq> []"
    using that by (simp add: slot_at_first slot_at_last)
  show ?thesis using ret len xs ends by blast
qed

text \<open>Three points: the middle one keeps its x-coordinate 1.\<close>

theorem distortPoints_touches_y_only_witness:
  "\<exists>out k'. distortPoints (\<lambda>n. 1 / 4) 0
        [Point (Vector 0 0), Point (Vector 1 5), Point (Vector 2 0)] 1 1 0.5 = Returns (out, k') \<and>
      length out = 3 \<and> (\<exists>q. out ! 1 = Point q \<and> vx q = 1) \<and>
      hd out = Point (Vector 0 0) \<and> last out = Point (Vector 2 0)"
proof -
  let ?points = "[Point (Vector 0 0), Point (Vector 1 5), Point (Vector 2 0)]"
  have "\<exists>out k'. distortPoints (\<lambda>n. 1 / 4) 0 ?points 1 1 0.5 = Returns (out, k') \<and>
           length out = max 2 (length ?points) \<and>
           (\<forall>i<length ?points. \<exists>p q. ?points ! i = Point p \<and> out ! i = Point q \<and> vx q = vx p) \<and>
           (?points \<noteq> [] \<longrightarrow> hd out = hd ?points \<and> last out = last ?points)"
    by (rule distortPoints_touches_y_only)
       (simp_all add: checkIfNumeric_def checkIfListOfPoints_def)
  then obtain out k' where out:
    "distortPoints (\<lambda>n. 1 / 4) 0 ?points 1 1 0.5 = Returns (out, k')"
    "length out = max 2 (length ?points)"
    "\<forall>i<length ?points. \<exists>p q. ?points ! i = Point p \<and> out ! i = Point q \<and> vx q = vx p"
    "hd out = hd ?points \<and> last out = last ?points"
    by auto
  have "(1::nat) < length ?points" by simp
  with out(3) have "\<exists>p q. ?points ! 1 = Point p \<and> out ! 1 = Point q \<and> vx q = vx p"
    by blast
  then have "\<exists>q. out ! 1 = Point q \<and> vx q = 1" by auto
  with out(1,2,4) show ?thesis by simp
qed

lemma collect_returns:
  assumes "\<And>i. i \<in> set is \<Longrightarrow> \<exists>a. f i = Returns a"
  shows "\<exists>as. collect f is = Returns as \<and> length as = length is \<and>
           (\<forall>j<length is. f (is ! j) = Returns (as ! j))"
  using assms
proof (induction "is")
  case Nil
  show ?case by simp
next
  case (Cons i rest)
  then obtain a where a: "f i = Returns a" by auto
  from Cons obtain as where as: "collect f rest = Returns as" "length as = length rest"
    "\<forall>j<length rest. f (rest ! j) = Returns (as ! j)" by auto
  have "\<forall>j<length (i # rest). f ((i # rest) ! j) = Returns ((a # as) ! j)"
    using a as(3) by (simp add: nth_Cons')
  then show ?case using a as(1,2) by simp
qed

lemma collect_Returns_D:
  "collect f is = Returns as \<Longrightarrow>
     length as = length is \<and> (\<forall>j<length is. f (is ! j) = Returns (as ! j))"
proof (induction "is" arbitrary: as)
  case Nil
  then show ?case by simp
next
  case (Cons i rest)
  from Cons.prems obtain a where a: "f i = Returns a"
    by (cases "f i") simp_all
  with Cons.prems obtain as' where as': "collect f rest = Returns as'" "as = a # as'"
    by (cases "collect f rest") auto
  from Cons.IH[OF as'(1)] a as'(2) show ?case
    by (simp add: nth_Cons')
qed

section \<open>Resampling\<close>

lemma at_number_int: "at_number xs (Num (of_int n)) = at_index xs n"
  by simp

lemma at_index_Some: "0 \<le> n \<Longrightarrow> n < int (length xs) \<Longrightarrow> at_index xs n = Some (xs ! nat n)"
  by (simp add: at_index_def)

lemma tween_point_first: "tween_point vs tween target 0 = Returns (spread (at_index vs 0))"
  by (simp add: tween_point_def)

lemma tween_point_last:
  "2 \<le> T \<Longrightarrow> tween_point vs tween (Num (real T)) (T - 1) =
     Returns (spread (at_index vs (int (length vs) - 1)))"
  by (simp add: tween_point_def of_nat_diff)

lemma tween_point_interior:
  assumes "unit_easing tween" and "vs \<noteq> []" and "0 < i" and "i < T - 1"
  shows "\<exists>q. tween_point vs tween (Num (real T)) i = Returns (Point q)"
proof -
  have lt: "real i < real T - 1" using assms(4) by linarith
  then have t: "0 < real i / (real T - 1)" "real i / (real T - 1) < 1"
    using assms(3) by simp_all
  then obtain v where v: "tween (Num (real i / (real T - 1))) = Num v" "0 \<le> v" "v \<le> 1"
    using assms(1) unfolding unit_easing_def by blast
  let ?m = "real_of_int (int (length vs) - 1)"
  let ?n = "\<lfloor>v * ?m\<rfloor>"
  have m: "0 \<le> ?m" using assms(2) by (cases vs) simp_all
  have "v * ?m \<le> ?m" using m v(2,3) by (rule mult_left_le_one_le)
  then have "?n \<le> \<lfloor>?m\<rfloor>" by (rule floor_mono)
  then have n_le: "?n \<le> int (length vs) - 1" by (simp only: floor_of_int)
  have "0 \<le> v * ?m" using v(2) m by (rule mult_nonneg_nonneg)
  then have n_ge: "0 \<le> ?n" by (simp only: zero_le_floor)
  let ?u = "min (?n + 1) (int (length vs) - 1)"
  have u: "0 \<le> ?u" "?u < int (length vs)" using n_ge n_le by linarith+
  have "?n < int (length vs)" using n_le by linarith
  with n_ge have lower: "at_number vs (Num (of_int ?n)) = Some (vs ! nat ?n)"
    by (simp only: at_number_int at_index_Some)
  have "Math_min (Num (of_int ?n) + 1) (Num ?m) = Num (of_int ?u)"
    by (simp add: min_def)
  then have upper: "at_number vs (Math_min (Num (of_int ?n) + 1) (Num ?m)) = Some (vs ! nat ?u)"
    using u by (simp only: at_number_int at_index_Some)
  have ne: "real i \<noteq> real T - 1" "real T - 1 \<noteq> 0" using lt assms(3) by simp_all
  show ?thesis
    using assms(3) ne v(1) lower upper
    by (simp add: tween_point_def Let_def)
qed

lemma the_point_Point: "checkPoint s \<Longrightarrow> Point (the_point s) = s"
  by (cases s) simp_all

lemma checkIfListOfPoints_hd: "checkIfListOfPoints points \<Longrightarrow> points \<noteq> [] \<Longrightarrow> Point (the_point (hd points)) = hd points"
  by (cases points) (simp_all add: checkIfListOfPoints_def the_point_Point)

lemma checkIfListOfPoints_last: "checkIfListOfPoints points \<Longrightarrow> points \<noteq> [] \<Longrightarrow> Point (the_point (last points)) = last points"
  by (cases points rule: rev_cases) (simp_all add: checkIfListOfPoints_def the_point_Point)

lemma tweenPoints_keeps:
  assumes "checkIfListOfPoints points" and "2 \<le> T" and "length points \<le> T"
  shows "tweenPoints points tween (Num (real T)) = Returns points"
  using assms by (simp add: tweenPoints_def)

lemma tweenPoints_collect:
  assumes "checkIfListOfPoints points" and "2 \<le> T" and "T < length points"
  shows "tweenPoints points tween (Num (real T)) =
           collect (tween_point (map the_point points) tween (Num (real T))) [0..<T]"
  using assms by (simp add: tweenPoints_def)

lemma resampled_ends:
  assumes "checkIfListOfPoints points" and "2 \<le> T" and "points \<noteq> []"
    and "collect (tween_point (map the_point points) tween (Num (real T))) [0..<T] = Returns res"
  shows "length res = T \<and> hd res = hd points \<and> last res = last points"
proof -
  let ?f = "tween_point (map the_point points) tween (Num (real T))"
  from collect_Returns_D[OF assms(4)]
  have len: "length res = T" and nth: "\<And>j. j < T \<Longrightarrow> ?f j = Returns (res ! j)"
    by simp_all
  have ne: "res \<noteq> []" using len assms(2) by auto
  have "?f 0 = Returns (hd points)"
    using assms(1,3)
    by (simp add: tween_point_first at_index_first hd_map checkIfListOfPoints_hd)
  moreover have "?f 0 = Returns (res ! 0)" using nth[of 0] assms(2) by simp
  ultimately have first: "hd res = hd points" using ne by (simp add: hd_conv_nth)
  have "at_index (map the_point points) (int (length points) - 1) = Some (the_point (last points))"
    using assms(3) at_index_last[of "map the_point points"] by (simp add: last_map)
  then have "?f (T - 1) = Returns (last points)"
    using assms(1,3) tween_point_last[OF assms(2), of "map the_point points" tween]
    by (simp add: checkIfListOfPoints_last)
  moreover have "?f (T - 1) = Returns (res ! (T - 1))" using nth[of "T - 1"] assms(2) by simp
  ultimately have "last res = last points" using ne len by (simp add: last_conv_nth)
  with len first show ?thesis by simp
qed

lemma tweenPoints_resamples:
  assumes "checkIfListOfPoints points" and "2 \<le> T" and "T < length points"
    and "unit_easing tween"
  shows "\<exists>res. tweenPoints points tween (Num (real T)) = Returns res \<and> length res = T \<and>
               hd res = hd points \<and> last res = last points"
proof -
  let ?vs = "map the_point points"
  let ?f = "tween_point ?vs tween (Num (real T))"
  have ne: "points \<noteq> []" using assms(3) by auto
  have "\<exists>s. ?f i = Returns s" if "i \<in> set [0..<T]" for i
  proof -
    have "i < T" using that by simp
    then consider "i = 0" | "i = T - 1" | "0 < i" "i < T - 1" by linarith
    then show ?thesis
    proof cases
      case 1
      then show ?thesis by (simp add: tween_point_first)
    next
      case 2
      then show ?thesis using tween_point_last[OF assms(2), of ?vs tween] by simp
    next
      case 3
      then show ?thesis using tween_point_interior[of tween ?vs i T] assms(3,4) ne by auto
    qed
  qed
  from collect_returns[of "[0..<T]" ?f, OF this]
  obtain res where res: "collect ?f [0..<T] = Returns res" by blast
  from resampled_ends[OF assms(1,2) ne res] res tweenPoints_collect[OF assms(1,2,3), of tween]
  show ?thesis by simp
qed

text \<open>
  Claim C4, as the code has it. For a list of \<open>M\<close> points with numeric coordinates and
  an integer target \<open>T \<ge> 2\<close>: if \<open>M \<le> T\<close> the list is returned unchanged, whatever the
  easing; if \<open>M > T\<close>, and the easing maps the positions strictly inside the unit
  interval into the unit interval, exactly \<open>T\<close> points are returned, the first and the
  last being the first and the last input.
\<close>

theorem tweenPoints_resampling:
  assumes "checkIfListOfPoints points" and "2 \<le> T"
  shows "(length points \<le> T \<longrightarrow> tweenPoints points tween (Num (real T)) = Returns points) \<and>
         (T < length points \<and> unit_easing tween \<longrightarrow>
            (\<exists>res. tweenPoints points tween (Num (real T)) = Returns res \<and> length res = T \<and>
                   hd res = hd points \<and> last res = last points))"
proof (intro conjI impI)
  assume "length points \<le> T"
  with assms show "tweenPoints points tween (Num (real T)) = Returns points"
    by (rule tweenPoints_keeps)
next
  assume a: "T < length points \<and> unit_easing tween"
  then have "T < length points" and "unit_easing tween" by simp_all
  with assms show "\<exists>res. tweenPoints points tween (Num (real T)) = Returns res \<and> length res = T \<and>
                   hd res = hd points \<and> last res = last points"
    by (rule tweenPoints_resamples)
qed

lemma unit_easing_linear: "unit_easing linear_tween"
  by (simp add: unit_easing_def linear_tween_def)

text \<open>Two points resampled to two, and four points resampled to three.\<close>

theorem tweenPoints_resampling_witness:
  "tweenPoints [Point (Vector 0 0), Point (Vector 1 1)] linear_tween 2 =
      Returns [Point (Vector 0 0), Point (Vector 1 1)] \<and>
   (\<exists>res. tweenPoints [Point (Vector 0 0), Point (Vector 1 1), Point (Vector 2 4), Point (Vector 3 9)]
             linear_tween 3 = Returns res \<and> length res = 3 \<and>
          hd res = Point (Vector 0 0) \<and> last res = Point (Vector 3 9))"
proof -
  have two: "(2::nat) \<le> 2" and three: "(2::nat) \<le> 3" by simp_all
  have c2: "checkIfListOfPoints [Point (Vector 0 0), Point (Vector 1 1)]"
    and c4: "checkIfListOfPoints [Point (Vector 0 0), Point (Vector 1 1), Point (Vector 2 4), Point (Vector 3 9)]"
    by (simp_all add: checkIfListOfPoints_def checkIfNumeric_def)
  show ?thesis
    using tweenPoints_resampling[OF c2 two, of linear_tween]
          tweenPoints_resampling[OF c4 three, of linear_tween] unit_easing_linear
    by simp
qed

text \<open>
  Claim C4 as stated fails for an easing outside its contract: the resampling indexes
  the points with the eased position and does not check it. Four points resampled to
  three under the easing that is constantly 2: the interior position reads the point at
  index 6, which is \<open>undefined\<close>, and the read of its coordinate throws.
\<close>

theorem tweenPoints_counterexample:
  "tweenPoints [Point (Vector 0 0), Point (Vector 1 1), Point (Vector 2 4), Point (Vector 3 9)]
     (\<lambda>t. 2) 3 = Throws TypeError"
proof -
  have "[0..<3] = [0, 1, 2]" by (simp add: upt_rec)
  then show ?thesis
    by (simp add: tweenPoints_def checkIfListOfPoints_def checkIfNumeric_def tween_point_def
        Let_def at_index_def)
qed

section \<open>The shape of a generated curve\<close>









lemma knots_loop_length: "length (fst (knots_loop rnd l r d u n k)) = n"
  by (induction n arbitrary: k) (simp_all add: split_beta Let_def)






lemma distance_between_Num:
  assumes "(c - a)\<^sup>2 + (d - b)\<^sup>2 < OVERFLOW"
  shows "distance_between (Vector (Num a) (Num b)) (Vector (Num c) (Num d)) =
           Num (sqrt ((c - a)\<^sup>2 + (d - b)\<^sup>2))"
proof -
  have "0 \<le> (c - a)\<^sup>2 + (d - b)\<^sup>2" by simp
  then have "overflow (Num ((c - a)\<^sup>2 + (d - b)\<^sup>2)) = Num ((c - a)\<^sup>2 + (d - b)\<^sup>2)"
    using assms by (rule overflow_in_range)
  moreover have "\<not> (c - a)\<^sup>2 + (d - b)\<^sup>2 < 0" by (simp add: not_less)
  ultimately show ?thesis
    by (simp add: distance_between_def del: overflow.simps)
qed





text \<open>
  The distance with an \<open>overflow\<close> after every operation is the distance with the one
  \<open>overflow\<close> around the sum.
\<close>

lemma square_overflows: "OVERFLOW \<le> \<bar>x\<bar> \<Longrightarrow> OVERFLOW \<le> x\<^sup>2"
proof -
  assume a: "OVERFLOW \<le> \<bar>x\<bar>"
  have one: "1 \<le> OVERFLOW" by (simp add: OVERFLOW_def)
  then have "1 \<le> \<bar>x\<bar>" using a by linarith
  then have "\<bar>x\<bar> * 1 \<le> \<bar>x\<bar> * \<bar>x\<bar>" by (intro mult_left_mono) simp_all
  then have "\<bar>x\<bar> \<le> x\<^sup>2" by (simp add: power2_eq_square)
  with a show ?thesis by linarith
qed

lemma square_after_overflow:
  "overflow (Math_pow (overflow (Num x)) 2) = overflow (Num (x\<^sup>2))"
proof -
  consider "OVERFLOW \<le> x" | "x \<le> - OVERFLOW" | "\<not> OVERFLOW \<le> x" "\<not> x \<le> - OVERFLOW" by blast
  then show ?thesis
  proof cases
    case 1
    then have "OVERFLOW \<le> x\<^sup>2" by (intro square_overflows) simp
    then show ?thesis using 1 by (simp add: eval_nat_numeral)
  next
    case 2
    then have "OVERFLOW \<le> x\<^sup>2" by (intro square_overflows) simp
    moreover have "\<not> OVERFLOW \<le> x" using 2 OVERFLOW_pos by linarith
    ultimately show ?thesis using 2 by (simp add: eval_nat_numeral)
  next
    case 3
    then show ?thesis by simp
  qed
qed

lemma sum_after_overflow:
  assumes "0 \<le> p" and "0 \<le> q"
  shows "overflow (overflow (Num p) + overflow (Num q)) = overflow (Num (p + q))"
proof -
  have n: "\<not> p \<le> - OVERFLOW" "\<not> q \<le> - OVERFLOW" "\<not> p + q \<le> - OVERFLOW"
    using assms OVERFLOW_pos by linarith+
  consider "OVERFLOW \<le> p" | "OVERFLOW \<le> q" | "\<not> OVERFLOW \<le> p" "\<not> OVERFLOW \<le> q" by blast
  then show ?thesis
  proof cases
    case 1
    then have "OVERFLOW \<le> p + q" using assms(2) by linarith
    then show ?thesis using 1 n by simp
  next
    case 2
    then have "OVERFLOW \<le> p + q" using assms(1) by linarith
    then show ?thesis using 2 n by simp
  next
    case 3
    then show ?thesis using n by simp
  qed
qed

lemma distance_overflow_once:
  "Math_sqrt (overflow (overflow (Math_pow (overflow (Num c - Num a)) 2) +
                        overflow (Math_pow (overflow (Num d - Num b)) 2))) =
   distance_between (Vector (Num a) (Num b)) (Vector (Num c) (Num d))"
proof -
  have "overflow (overflow (Math_pow (overflow (Num c - Num a)) 2) +
                  overflow (Math_pow (overflow (Num d - Num b)) 2)) =
        overflow (overflow (Num ((c - a)\<^sup>2)) + overflow (Num ((d - b)\<^sup>2)))"
    by (simp only: minus_Num square_after_overflow)
  also have "\<dots> = overflow (Num ((c - a)\<^sup>2 + (d - b)\<^sup>2))"
    by (rule sum_after_overflow) simp_all
  finally show ?thesis
    by (simp add: distance_between_def del: overflow.simps)
qed










section \<open>A request in range is answered\<close>

















section \<open>End points, length and validation of a trajectory\<close>




lemma distance_300_400: "distance_between (Vector 0 0) (Vector 300 400) = 500"
proof -
  have "sqrt (300\<^sup>2 + 400\<^sup>2) = (500::real)"
    by (rule real_sqrt_unique) simp_all
  moreover have "((300::real) - 0)\<^sup>2 + (400 - 0)\<^sup>2 < OVERFLOW"
    by (simp add: OVERFLOW_def)
  from distance_between_Num[OF this]
  have "distance_between (Vector (Num 0) (Num 0)) (Vector (Num 300) (Num 400)) =
          Num (sqrt ((300 - 0)\<^sup>2 + (400 - 0)\<^sup>2))" .
  ultimately show ?thesis by simp
qed
















section \<open>The easing catalog keeps the unit interval\<close>

lemma easing_contractI:
  assumes val: "\<And>t. 0 \<le> t \<Longrightarrow> t \<le> 1 \<Longrightarrow> f (Num t) = Num (g t)"
    and zero: "g 0 = 0" and one: "g 1 = 1"
    and mono: "\<And>s t. 0 \<le> s \<Longrightarrow> s \<le> t \<Longrightarrow> t \<le> 1 \<Longrightarrow> g s \<le> g t"
  shows "easing_contract f"
proof -
  have "\<exists>u v. f (Num s) = Num u \<and> f (Num t) = Num v \<and> 0 \<le> u \<and> u \<le> v \<and> v \<le> 1"
    if "0 \<le> s" "s \<le> t" "t \<le> 1" for s t
  proof -
    have "g 0 \<le> g s" using that by (intro mono) simp_all
    moreover have "g t \<le> g 1" using that by (intro mono) simp_all
    moreover have "g s \<le> g t" using that by (rule mono)
    moreover have "f (Num s) = Num (g s)" "f (Num t) = Num (g t)" using that by (simp_all add: val)
    ultimately show ?thesis using zero one by simp
  qed
  moreover have "f 0 = 0" "f 1 = 1" using val[of 0] val[of 1] zero one by simp_all
  ultimately show ?thesis unfolding easing_contract_def by blast
qed


lemma piecewise_mono:
  fixes a b :: "real \<Rightarrow> real"
  assumes "\<And>s t. 0 \<le> s \<Longrightarrow> s \<le> t \<Longrightarrow> t \<le> 1 / 2 \<Longrightarrow> a s \<le> a t"
    and "\<And>s t. 1 / 2 \<le> s \<Longrightarrow> s \<le> t \<Longrightarrow> t \<le> 1 \<Longrightarrow> b s \<le> b t"
    and "a (1 / 2) \<le> b (1 / 2)"
    and "0 \<le> s" and "s \<le> t" and "t \<le> 1"
  shows "(if s < 1 / 2 then a s else b s) \<le> (if t < 1 / 2 then a t else b t)"
proof -
  consider "t < 1 / 2" | "1 / 2 \<le> s" | "s < 1 / 2" "1 / 2 \<le> t" by linarith
  then show ?thesis
  proof cases
    case 1
    then show ?thesis using assms(1)[of s t] assms(4,5) by simp
  next
    case 2
    then show ?thesis using assms(2)[of s t] assms(5,6) by simp
  next
    case 3
    have "a s \<le> a (1 / 2)" using assms(1)[of s "1 / 2"] 3 assms(4) by simp
    moreover have "b (1 / 2) \<le> b t" using assms(2)[of "1 / 2" t] 3 assms(6) by simp
    ultimately show ?thesis using assms(3) 3 by simp
  qed
qed

lemma cube: "x * x * x = (x::real) ^ 3" by (simp add: power3_eq_cube)

lemma fourth: "x * x * x * x = (x::real) ^ 4" by (simp add: power4_eq_xxxx)

lemma fifth: "x * x * x * x * x = (x::real) ^ 5" by (simp add: eval_nat_numeral)

lemma even_power_antimono: "s \<le> t \<Longrightarrow> t \<le> 1 \<Longrightarrow> (t - 1) ^ 4 \<le> (s - 1 :: real) ^ 4"
proof -
  assume "s \<le> t" "t \<le> 1"
  then have "(1 - t) ^ 4 \<le> (1 - s) ^ 4" by (intro power_mono) simp_all
  moreover have "(1 - t) ^ 4 = (t - 1) ^ 4" "(1 - s) ^ 4 = (s - 1) ^ 4"
    by (simp_all add: power4_eq_xxxx algebra_simps)
  ultimately show ?thesis by simp
qed

lemma square_antimono: "s \<le> t \<Longrightarrow> t \<le> 1 \<Longrightarrow> (t - 1)\<^sup>2 \<le> (s - 1 :: real)\<^sup>2"
proof -
  assume "s \<le> t" "t \<le> 1"
  then have "(1 - t)\<^sup>2 \<le> (1 - s)\<^sup>2" by (intro power_mono) simp_all
  then show ?thesis by (simp add: power2_commute)
qed

lemma easing_linear: "easing_contract linear_tween"
  by (rule easing_contractI[where g = "\<lambda>t. t"]) (simp_all add: linear_tween_def)

lemma easing_easeOutCubic: "easing_contract easeOutCubic"
proof (rule easing_contractI[where g = "\<lambda>t. (t - 1) ^ 3 + 1"])
  show "easeOutCubic (Num t) = Num ((t - 1) ^ 3 + 1)" for t
    by (simp add: easeOutCubic_def Let_def cube)
  show "(s - 1) ^ 3 + 1 \<le> (t - 1) ^ 3 + 1" if "s \<le> t" for s t :: real
    using that by (simp add: power_mono_odd)
qed simp_all

lemma easing_easeOutQuart: "easing_contract easeOutQuart"
proof (rule easing_contractI[where g = "\<lambda>t. 1 - (t - 1) ^ 4"])
  show "easeOutQuart (Num t) = Num (1 - (t - 1) ^ 4)" for t
    by (simp add: easeOutQuart_def Let_def fourth)
  show "1 - (s - 1) ^ 4 \<le> 1 - (t - 1) ^ 4" if "s \<le> t" "t \<le> 1" for s t :: real
    using even_power_antimono[OF that] by simp
qed simp_all

lemma easing_easeOutQuint: "easing_contract easeOutQuint"
proof (rule easing_contractI[where g = "\<lambda>t. 1 + (t - 1) ^ 5"])
  show "easeOutQuint (Num t) = Num (1 + (t - 1) ^ 5)" for t
    by (simp add: easeOutQuint_def Let_def fifth)
  show "1 + (s - 1) ^ 5 \<le> 1 + (t - 1) ^ 5" if "s \<le> t" for s t :: real
    using that by (simp add: power_mono_odd)
qed simp_all

lemma half_Num: "(Num t < 0.5) = (t < 1 / 2)"
  by simp

lemma easing_easeInOutCubic: "easing_contract easeInOutCubic"
proof (rule easing_contractI[where g = "\<lambda>t. if t < 1 / 2 then 4 * t ^ 3 else ((2 * t - 2) ^ 3 + 2) / 2"])
  show "easeInOutCubic (Num t) = Num (if t < 1 / 2 then 4 * t ^ 3 else ((2 * t - 2) ^ 3 + 2) / 2)" for t
    by (simp add: easeInOutCubic_def Let_def power3_eq_cube mult.assoc)
  show "(if s < 1 / 2 then 4 * s ^ 3 else ((2 * s - 2) ^ 3 + 2) / 2)
        \<le> (if t < 1 / 2 then 4 * t ^ 3 else ((2 * t - 2) ^ 3 + 2) / 2)"
    if "0 \<le> s" "s \<le> t" "t \<le> 1" for s t :: real
  proof (rule piecewise_mono[OF _ _ _ that])
    show "4 * s ^ 3 \<le> 4 * t ^ 3" if "0 \<le> s" "s \<le> t" for s t :: real
      using that by (simp add: power_mono)
    show "((2 * s - 2) ^ 3 + 2) / 2 \<le> ((2 * t - 2) ^ 3 + 2) / 2" if "s \<le> t" for s t :: real
      using that by (simp add: power_mono_odd)
    show "4 * (1 / 2) ^ 3 \<le> ((2 * (1 / 2) - 2) ^ 3 + 2) / (2::real)"
      by (simp add: power3_eq_cube)
  qed
qed simp_all

lemma easing_easeInOutQuart: "easing_contract easeInOutQuart"
proof (rule easing_contractI[where g = "\<lambda>t. if t < 1 / 2 then 8 * t ^ 4 else 1 - 8 * (t - 1) ^ 4"])
  show "easeInOutQuart (Num t) = Num (if t < 1 / 2 then 8 * t ^ 4 else 1 - 8 * (t - 1) ^ 4)" for t
    by (simp add: easeInOutQuart_def Let_def power4_eq_xxxx mult.assoc)
  show "(if s < 1 / 2 then 8 * s ^ 4 else 1 - 8 * (s - 1) ^ 4)
        \<le> (if t < 1 / 2 then 8 * t ^ 4 else 1 - 8 * (t - 1) ^ 4)"
    if "0 \<le> s" "s \<le> t" "t \<le> 1" for s t :: real
  proof (rule piecewise_mono[OF _ _ _ that])
    show "8 * s ^ 4 \<le> 8 * t ^ 4" if "0 \<le> s" "s \<le> t" for s t :: real
      using that by (simp add: power_mono)
    show "1 - 8 * (s - 1) ^ 4 \<le> 1 - 8 * (t - 1) ^ 4" if "s \<le> t" "t \<le> 1" for s t :: real
      using even_power_antimono[OF that] by simp
    show "8 * (1 / 2) ^ 4 \<le> 1 - 8 * (1 / 2 - 1 :: real) ^ 4"
      by (simp add: power4_eq_xxxx)
  qed
qed simp_all

lemma easing_easeInOutQuint: "easing_contract easeInOutQuint"
proof (rule easing_contractI[where g = "\<lambda>t. if t < 1 / 2 then 16 * t ^ 5 else 1 + 16 * (t - 1) ^ 5"])
  show "easeInOutQuint (Num t) = Num (if t < 1 / 2 then 16 * t ^ 5 else 1 + 16 * (t - 1) ^ 5)" for t
    by (simp add: easeInOutQuint_def Let_def fifth[symmetric] mult.assoc)
  show "(if s < 1 / 2 then 16 * s ^ 5 else 1 + 16 * (s - 1) ^ 5)
        \<le> (if t < 1 / 2 then 16 * t ^ 5 else 1 + 16 * (t - 1) ^ 5)"
    if "0 \<le> s" "s \<le> t" "t \<le> 1" for s t :: real
  proof (rule piecewise_mono[OF _ _ _ that])
    show "16 * s ^ 5 \<le> 16 * t ^ 5" if "0 \<le> s" "s \<le> t" for s t :: real
      using that by (simp add: power_mono)
    show "1 + 16 * (s - 1) ^ 5 \<le> 1 + 16 * (t - 1) ^ 5" if "s \<le> t" for s t :: real
      using that by (simp add: power_mono_odd)
    show "16 * (1 / 2) ^ 5 \<le> 1 + 16 * (1 / 2 - 1 :: real) ^ 5"
      by (simp add: fifth[symmetric])
  qed
qed simp_all

lemma easing_easeOutSine: "easing_contract easeOutSine"
proof (rule easing_contractI[where g = "\<lambda>t. sin (t * pi / 2)"])
  show "easeOutSine (Num t) = Num (sin (t * pi / 2))" for t
    by (simp add: easeOutSine_def)
  show "sin (s * pi / 2) \<le> sin (t * pi / 2)" if "0 \<le> s" "s \<le> t" "t \<le> 1" for s t :: real
  proof (rule sin_monotone_2pi_le)
    have "0 \<le> s * pi / 2" using that(1) by simp
    then show "- (pi / 2) \<le> s * pi / 2" using pi_ge_zero by linarith
    show "s * pi / 2 \<le> t * pi / 2" using that(2) by simp
    have "t * pi \<le> 1 * pi" using that(3) by (intro mult_right_mono) simp_all
    then show "t * pi / 2 \<le> pi / 2" by simp
  qed
qed simp_all

lemma easing_easeInOutSine: "easing_contract easeInOutSine"
proof (rule easing_contractI[where g = "\<lambda>t. - (cos (pi * t) - 1) / 2"])
  show "easeInOutSine (Num t) = Num (- (cos (pi * t) - 1) / 2)" for t
    by (simp add: easeInOutSine_def)
  show "- (cos (pi * s) - 1) / 2 \<le> - (cos (pi * t) - 1) / 2"
    if "0 \<le> s" "s \<le> t" "t \<le> 1" for s t :: real
  proof -
    have "cos (pi * t) \<le> cos (pi * s)"
    proof (rule cos_monotone_0_pi_le)
      show "0 \<le> pi * s" using that(1) by simp
      show "pi * s \<le> pi * t" using that(2) by simp
      have "pi * t \<le> pi * 1" using that(3) by (intro mult_left_mono) simp_all
      then show "pi * t \<le> pi" by simp
    qed
    then show ?thesis by simp
  qed
qed simp_all

lemma easing_easeOutCirc: "easing_contract easeOutCirc"
proof (rule easing_contractI[where g = "\<lambda>t. sqrt (1 - (t - 1)\<^sup>2)"])
  show "easeOutCirc (Num t) = Num (sqrt (1 - (t - 1)\<^sup>2))" if "0 \<le> t" "t \<le> 1" for t
  proof -
    have "(t - 1)\<^sup>2 \<le> (0 - 1)\<^sup>2" using that by (intro square_antimono) simp_all
    then have "\<not> 1 - (t - 1)\<^sup>2 < 0" by simp
    then show ?thesis by (simp add: easeOutCirc_def)
  qed
  show "sqrt (1 - (s - 1)\<^sup>2) \<le> sqrt (1 - (t - 1)\<^sup>2)" if "s \<le> t" "t \<le> 1" for s t :: real
    using square_antimono[OF that] by simp
qed simp_all

lemma easing_easeOutExpo: "easing_contract easeOutExpo"
proof (rule easing_contractI[where g = "\<lambda>t. if t = 1 then 1 else 1 - 2 powr (- 10 * t)"])
  show "easeOutExpo (Num t) = Num (if t = 1 then 1 else 1 - 2 powr (- 10 * t))" for t
    by (simp add: easeOutExpo_def)
  show "(if s = 1 then 1 else 1 - 2 powr (- 10 * s)) \<le> (if t = 1 then 1 else 1 - 2 powr (- 10 * t))"
    if "s \<le> t" "t \<le> 1" for s t :: real
  proof (cases "t = 1")
    case True
    have "0 \<le> 2 powr (- 10 * s)" by simp
    then show ?thesis using True by simp
  next
    case False
    then have "s \<noteq> 1" using that by simp
    have "(2::real) powr (- 10 * t) \<le> 2 powr (- 10 * s)"
      using that(1) by (intro powr_mono) simp_all
    then show ?thesis using False \<open>s \<noteq> 1\<close> by simp
  qed
qed simp_all

lemma easing_easeInOutCirc: "easing_contract easeInOutCirc"
proof (rule easing_contractI[where g = "\<lambda>t. if t < 1 / 2 then (1 - sqrt (1 - (2 * t)\<^sup>2)) / 2
                                          else (sqrt (1 - (- 2 * t + 2)\<^sup>2) + 1) / 2"])
  show "easeInOutCirc (Num t) = Num (if t < 1 / 2 then (1 - sqrt (1 - (2 * t)\<^sup>2)) / 2
                                          else (sqrt (1 - (- 2 * t + 2)\<^sup>2) + 1) / 2)"
    if "0 \<le> t" "t \<le> 1" for t
  proof (cases "t < 1 / 2")
    case True
    then have "(2 * t)\<^sup>2 \<le> 1\<^sup>2" using that by (intro power_mono) simp_all
    then have "\<not> 1 - (2 * t)\<^sup>2 < 0" by simp
    then show ?thesis using True by (simp add: easeInOutCirc_def)
  next
    case False
    then have "(- 2 * t + 2)\<^sup>2 \<le> 1\<^sup>2" using that by (intro power_mono) simp_all
    then have "\<not> 1 - (- 2 * t + 2)\<^sup>2 < 0" by simp
    then show ?thesis using False by (simp add: easeInOutCirc_def)
  qed
  show "(if s < 1 / 2 then (1 - sqrt (1 - (2 * s)\<^sup>2)) / 2 else (sqrt (1 - (- 2 * s + 2)\<^sup>2) + 1) / 2)
        \<le> (if t < 1 / 2 then (1 - sqrt (1 - (2 * t)\<^sup>2)) / 2 else (sqrt (1 - (- 2 * t + 2)\<^sup>2) + 1) / 2)"
    if "0 \<le> s" "s \<le> t" "t \<le> 1" for s t :: real
  proof (rule piecewise_mono[OF _ _ _ that])
    show "(1 - sqrt (1 - (2 * s)\<^sup>2)) / 2 \<le> (1 - sqrt (1 - (2 * t)\<^sup>2)) / 2"
      if "0 \<le> s" "s \<le> t" for s t :: real
    proof -
      have "(2 * s)\<^sup>2 \<le> (2 * t)\<^sup>2" using that by (intro power_mono) simp_all
      then show ?thesis by simp
    qed
    show "(sqrt (1 - (- 2 * s + 2)\<^sup>2) + 1) / 2 \<le> (sqrt (1 - (- 2 * t + 2)\<^sup>2) + 1) / 2"
      if "s \<le> t" "t \<le> 1" for s t :: real
    proof -
      have "(- 2 * t + 2)\<^sup>2 \<le> (- 2 * s + 2)\<^sup>2" using that by (intro power_mono) simp_all
      then show ?thesis by simp
    qed
    show "(1 - sqrt (1 - (2 * (1 / 2))\<^sup>2)) / 2 \<le> (sqrt (1 - (- 2 * (1 / 2) + 2)\<^sup>2) + 1) / (2::real)"
      by simp
  qed
qed simp_all

lemma easing_easeInOutExpo: "easing_contract easeInOutExpo"
proof (rule easing_contractI[where g = "\<lambda>t. if t = 0 then 0 else if t = 1 then 1
          else if t < 1 / 2 then 2 powr (20 * t - 10) / 2 else (2 - 2 powr (- 20 * t + 10)) / 2"])
  let ?h = "\<lambda>t::real. if t < 1 / 2 then 2 powr (20 * t - 10) / 2 else (2 - 2 powr (- 20 * t + 10)) / 2"
  show "easeInOutExpo (Num t) = Num (if t = 0 then 0 else if t = 1 then 1 else ?h t)" for t
    by (simp add: easeInOutExpo_def)
  have h_mono: "?h s \<le> ?h t" if "0 \<le> s" "s \<le> t" "t \<le> 1" for s t :: real
  proof (rule piecewise_mono[OF _ _ _ that])
    show "2 powr (20 * s - 10) / 2 \<le> 2 powr (20 * t - 10) / (2::real)" if "s \<le> t" for s t :: real
      using that by (simp add: powr_mono)
    show "(2 - 2 powr (- 20 * s + 10)) / 2 \<le> (2 - 2 powr (- 20 * t + 10)) / (2::real)"
      if "s \<le> t" for s t :: real
      using that by (simp add: powr_mono)
    show "2 powr (20 * (1 / 2) - 10) / 2 \<le> (2 - 2 powr (- 20 * (1 / 2) + 10)) / (2::real)"
      by simp
  qed
  have h_low: "0 \<le> ?h t" for t :: real
  proof -
    show ?thesis
    proof (cases "t < 1 / 2")
      case True
      then show ?thesis by simp
    next
      case False
      then have "(2::real) powr (- 20 * t + 10) \<le> 2 powr 0"
        by (intro powr_mono) simp_all
      then have "(2::real) powr (- 20 * t + 10) \<le> 2" by simp
      then show ?thesis using False by simp
    qed
  qed
  have h_high: "?h t \<le> 1" for t :: real
  proof -
    show ?thesis
    proof (cases "t < 1 / 2")
      case True
      then have "(2::real) powr (20 * t - 10) \<le> 2 powr 0"
        by (intro powr_mono) simp_all
      then have "(2::real) powr (20 * t - 10) \<le> 2" by simp
      then show ?thesis using True by simp
    next
      case False
      have "0 \<le> (2::real) powr (- 20 * t + 10)" by simp
      then show ?thesis using False by simp
    qed
  qed
  show "(if s = 0 then 0 else if s = 1 then 1 else ?h s) \<le> (if t = 0 then 0 else if t = 1 then 1 else ?h t)"
    if "0 \<le> s" "s \<le> t" "t \<le> 1" for s t :: real
  proof -
    consider "s = 0" | "t = 1" | "s \<noteq> 0" "t \<noteq> 1" by blast
    then show ?thesis
    proof cases
      case 1
      then show ?thesis using h_low[of t] by simp
    next
      case 2
      then show ?thesis using h_high[of s] by simp
    next
      case 3
      then have "t \<noteq> 0" "s \<noteq> 1" using that by simp_all
      then show ?thesis using 3 h_mono[OF that] by simp
    qed
  qed
qed simp_all

lemma TWEEN_OPTIONS_contract: "f \<in> set TWEEN_OPTIONS \<Longrightarrow> easing_contract f"
  unfolding TWEEN_OPTIONS_def
  using easing_linear easing_easeOutCubic easing_easeOutQuart easing_easeOutQuint
    easing_easeInOutCubic easing_easeInOutQuart easing_easeInOutQuint easing_easeOutSine
    easing_easeInOutSine easing_easeOutCirc easing_easeOutExpo easing_easeInOutCirc
    easing_easeInOutExpo
  by auto

text \<open>
  Claim C7. Every easing function of the catalog fixes 0 and 1, maps the unit interval
  into the unit interval with finite values, and is non-decreasing on it.
\<close>

theorem TWEEN_OPTIONS_monotone:
  "\<forall>f\<in>set TWEEN_OPTIONS.
     f 0 = 0 \<and> f 1 = 1 \<and>
     (\<forall>s t. 0 \<le> s \<and> s \<le> t \<and> t \<le> 1 \<longrightarrow>
        (\<exists>u v. f (Num s) = Num u \<and> f (Num t) = Num v \<and> 0 \<le> u \<and> u \<le> v \<and> v \<le> 1))"
  using TWEEN_OPTIONS_contract unfolding easing_contract_def by blast

text \<open>The cubic in-out easing of the catalog, at one quarter and three quarters.\<close>

theorem TWEEN_OPTIONS_monotone_witness:
  "easeInOutCubic 0 = 0 \<and> easeInOutCubic 1 = 1 \<and>
   (\<exists>u v. easeInOutCubic (Num (1 / 4)) = Num u \<and> easeInOutCubic (Num (3 / 4)) = Num v \<and>
          0 \<le> u \<and> u \<le> v \<and> v \<le> 1)"
proof -
  have m: "easeInOutCubic \<in> set TWEEN_OPTIONS" by (simp add: TWEEN_OPTIONS_def)
  have "(0::real) \<le> 1 / 4 \<and> (1 / 4 :: real) \<le> 3 / 4 \<and> (3 / 4 :: real) \<le> 1" by simp
  with TWEEN_OPTIONS_monotone m show ?thesis by blast
qed

section \<open>The generated parameters\<close>


lemma wrc_snd [simp]: "snd (weightedRandomChoice rnd k items ws) = k + 1"
  by (simp add: weightedRandomChoice_def Let_def)

lemma rfr_snd [simp]: "snd (randomFromRange rnd k a b) = k + 1"
  by (simp add: randomFromRange_def)

lemma choice_loop_member: "choice_loop items weights random = Some it \<Longrightarrow> it \<in> set items"
  by (induction items arbitrary: weights random) (auto simp: Let_def split: if_splits)

lemma weightedRandomChoice_member:
  assumes "items \<noteq> []"
  shows "\<exists>it\<in>set items. fst (weightedRandomChoice rnd k items weights) = Some it"
proof (cases "choice_loop items weights
    (Num (rnd k) * foldl (\<lambda>sum w. sum + w) 0 weights)")
  case None
  then show ?thesis using assms
    by (auto simp: weightedRandomChoice_def Let_def at_index_last)
next
  case (Some it)
  then show ?thesis using choice_loop_member[OF Some]
    by (simp add: weightedRandomChoice_def Let_def)
qed

lemma randomFromRange_bounds:
  assumes "0 \<le> rnd k" and "rnd k < 1" and "lo \<le> hi"
  shows "\<exists>v. fst (randomFromRange rnd k (Num (of_int lo)) (Num (of_int hi))) = Num (of_int v) \<and>
           lo \<le> v \<and> v \<le> hi"
proof -
  let ?w = "real_of_int (hi - lo + 1)"
  let ?n = "\<lfloor>rnd k * ?w\<rfloor>"
  have w: "0 < ?w" using assms(3) by simp
  have "0 \<le> rnd k * ?w" using assms(1) w by simp
  then have lo: "0 \<le> ?n" by simp
  have "rnd k * ?w < ?w" using assms(2) w by simp
  then have "?n < hi - lo + 1" by (simp only: floor_less_iff)
  then have hi: "?n \<le> hi - lo" by simp
  have "fst (randomFromRange rnd k (Num (of_int lo)) (Num (of_int hi))) = Num (of_int (?n + lo))"
    by (simp add: randomFromRange_def algebra_simps)
  then show ?thesis using lo hi by (intro exI[of _ "?n + lo"]) simp
qed

text \<open>A weighted choice among integer ranges followed by the draw inside the chosen range.\<close>

lemma tier_draw:
  assumes "0 \<le> rnd k1" and "rnd k1 < 1" and "items \<noteq> []"
    and "\<And>it. it \<in> set items \<Longrightarrow>
           \<exists>a b. it = (Num (of_int a), Num (of_int b)) \<and> a \<le> b \<and> L \<le> a \<and> b \<le> H"
  shows "\<exists>v a b. range_draw rnd k1 (fst (weightedRandomChoice rnd k0 items ws))
                = Returns (Num (of_int v), k1 + 1) \<and> L \<le> v \<and> v \<le> H \<and>
              fst (weightedRandomChoice rnd k0 items ws) = Some (Num (of_int a), Num (of_int b)) \<and>
              a \<le> v \<and> v \<le> b"
proof -
  from weightedRandomChoice_member[OF assms(3), of rnd k0 ws] obtain it where
    it: "it \<in> set items" "fst (weightedRandomChoice rnd k0 items ws) = Some it" by blast
  from assms(4)[OF it(1)] obtain a b where
    ab: "it = (Num (of_int a), Num (of_int b))" "a \<le> b" "L \<le> a" "b \<le> H" by blast
  from randomFromRange_bounds[of rnd k1 a b, OF assms(1,2) ab(2)] obtain v where
    v: "fst (randomFromRange rnd k1 (Num (of_int a)) (Num (of_int b))) = Num (of_int v)"
       "a \<le> v" "v \<le> b" by blast
  have "randomFromRange rnd k1 (Num (of_int a)) (Num (of_int b)) = (Num (of_int v), k1 + 1)"
    using v(1) rfr_snd[of rnd k1 "Num (of_int a)" "Num (of_int b)"]
    by (metis prod.collapse)
  then have "range_draw rnd k1 (fst (weightedRandomChoice rnd k0 items ws))
      = Returns (Num (of_int v), k1 + 1)"
    by (simp add: range_draw_def it(2) ab(1))
  then show ?thesis using v(2,3) ab it(2) by (intro exI[of _ v] exI[of _ a] exI[of _ b]) simp
qed

lemma offset_tiers:
  assumes "it \<in> set [(Num 20, Num 44), (Num 45, Num 74), (Num 75, Num 99)]"
  shows "\<exists>a b. it = (Num (of_int a), Num (of_int b)) \<and> a \<le> b \<and> 20 \<le> a \<and> b \<le> 99"
proof -
  from assms consider "it = (Num (of_int 20), Num (of_int 44))"
    | "it = (Num (of_int 45), Num (of_int 74))" | "it = (Num (of_int 75), Num (of_int 99))"
    by auto
  then show ?thesis
  proof cases
    case 1 then show ?thesis by (intro exI[of _ 20] exI[of _ 44]) simp
  next
    case 2 then show ?thesis by (intro exI[of _ 45] exI[of _ 74]) simp
  next
    case 3 then show ?thesis by (intro exI[of _ 75] exI[of _ 99]) simp
  qed
qed

lemma target_tiers:
  assumes "it \<in> set [(Num 35, Num 44), (Num 45, Num 59), (Num 60, Num 79)]"
  shows "\<exists>a b. it = (Num (of_int a), Num (of_int b)) \<and> a \<le> b \<and> 35 \<le> a \<and> b \<le> 79"
proof -
  from assms consider "it = (Num (of_int 35), Num (of_int 44))"
    | "it = (Num (of_int 45), Num (of_int 59))" | "it = (Num (of_int 60), Num (of_int 79))"
    by auto
  then show ?thesis
  proof cases
    case 1 then show ?thesis by (intro exI[of _ 35] exI[of _ 44]) simp
  next
    case 2 then show ?thesis by (intro exI[of _ 45] exI[of _ 59]) simp
  next
    case 3 then show ?thesis by (intro exI[of _ 60] exI[of _ 79]) simp
  qed
qed

lemma generated_bundle:
  assumes "unit_draws rnd"
  shows "\<exists>ox oy c mv sv fv tg.
           generateRandomCurveParameters f t rnd k =
             Returns (\<lparr>p_offsetBoundaryX = Math_max (Num (of_int ox)) (min_boundary f t),
                       p_offsetBoundaryY = Math_max (Num (of_int oy)) (min_boundary f t),
                       p_knotsCount = Math_max c 2,
                       p_distortionMean = Num (of_int mv / 100),
                       p_distortionStDev = Num (of_int sv / 100),
                       p_distortionFrequency = Num (of_int fv / 100),
                       p_tween = at_number TWEEN_OPTIONS
                                   (Math_floor (Num (rnd k) * Num (real (length TWEEN_OPTIONS)))),
                       p_targetPoints = Num (of_int tg)\<rparr>, k + 11) \<and>
           20 \<le> ox \<and> ox \<le> 99 \<and> 20 \<le> oy \<and> oy \<le> 99 \<and>
           c \<in> set [Num 1, Num 2, Num 3, Num 4, Num 5, Num 6, Num 7, Num 8, Num 9, Num 10] \<and>
           80 \<le> mv \<and> mv \<le> 109 \<and> 85 \<le> sv \<and> sv \<le> 109 \<and> 25 \<le> fv \<and> fv \<le> 69 \<and>
           35 \<le> tg \<and> tg \<le> 79 \<and>
           (\<exists>a b. fst (weightedRandomChoice rnd (k + 1)
                         [(Num 20, Num 44), (Num 45, Num 74), (Num 75, Num 99)]
                         [Num (1 / 5), Num (13 / 20), Num 15])
                    = Some (Num (of_int a), Num (of_int b)) \<and> a \<le> ox \<and> ox \<le> b)"
proof -
  have u: "0 \<le> rnd n" "rnd n < 1" for n using assms by (simp_all add: unit_draws_def)
  let ?X = "[(Num 20, Num 44), (Num 45, Num 74), (Num 75, Num 99)]"
  let ?W = "[Num (1 / 5), Num (13 / 20), Num 15]"
  let ?T = "[(Num 35, Num 44), (Num 45, Num 59), (Num 60, Num 79)]"
  let ?TW = "[Num (53 / 100), Num (8 / 25), Num (3 / 20)]"
  let ?K = "[Num 1, Num 2, Num 3, Num 4, Num 5, Num 6, Num 7, Num 8, Num 9, Num 10]"
  let ?KW = "[Num (3 / 20), Num (9 / 25), Num (17 / 100), Num (3 / 25), Num (2 / 25),
              Num (1 / 25), Num (3 / 100), Num (1 / 50), Num (3 / 200), Num (1 / 200)]"
  from tier_draw[of rnd "k + 2" ?X 20 99 "k + 1" ?W, OF u] offset_tiers
  obtain ox a b where ox: "range_draw rnd (k + 2) (fst (weightedRandomChoice rnd (k + 1) ?X ?W))
      = Returns (Num (of_int ox), k + 2 + 1)" "20 \<le> ox" "ox \<le> 99"
      "fst (weightedRandomChoice rnd (k + 1) ?X ?W) = Some (Num (of_int a), Num (of_int b))"
      "a \<le> ox" "ox \<le> b" by blast
  from tier_draw[of rnd "k + 4" ?X 20 99 "k + 3" ?W, OF u] offset_tiers
  obtain oy where oy: "range_draw rnd (k + 4) (fst (weightedRandomChoice rnd (k + 3) ?X ?W))
      = Returns (Num (of_int oy), k + 4 + 1)" "20 \<le> oy" "oy \<le> 99" by blast
  from tier_draw[of rnd "k + 10" ?T 35 79 "k + 9" ?TW, OF u] target_tiers
  obtain tg where tg: "range_draw rnd (k + 10) (fst (weightedRandomChoice rnd (k + 9) ?T ?TW))
      = Returns (Num (of_int tg), k + 10 + 1)" "35 \<le> tg" "tg \<le> 79" by blast
  from weightedRandomChoice_member[of ?K rnd "k + 5" ?KW]
  obtain c where c: "c \<in> set ?K" "fst (weightedRandomChoice rnd (k + 5) ?K ?KW) = Some c"
    by auto
  from randomFromRange_bounds[of rnd "k + 6" 80 109, OF u]
  obtain mv where mv: "fst (randomFromRange rnd (k + 6) (Num 80) (Num 109)) = Num (of_int mv)"
    "80 \<le> mv" "mv \<le> 109" by auto
  from randomFromRange_bounds[of rnd "k + 7" 85 109, OF u]
  obtain sv where sv: "fst (randomFromRange rnd (k + 7) (Num 85) (Num 109)) = Num (of_int sv)"
    "85 \<le> sv" "sv \<le> 109" by auto
  from randomFromRange_bounds[of rnd "k + 8" 25 69, OF u]
  obtain fv where fv: "fst (randomFromRange rnd (k + 8) (Num 25) (Num 69)) = Num (of_int fv)"
    "25 \<le> fv" "fv \<le> 69" by auto
  have "generateRandomCurveParameters f t rnd k =
             Returns (\<lparr>p_offsetBoundaryX = Math_max (Num (of_int ox)) (min_boundary f t),
                       p_offsetBoundaryY = Math_max (Num (of_int oy)) (min_boundary f t),
                       p_knotsCount = Math_max c 2,
                       p_distortionMean = Num (of_int mv / 100),
                       p_distortionStDev = Num (of_int sv / 100),
                       p_distortionFrequency = Num (of_int fv / 100),
                       p_tween = at_number TWEEN_OPTIONS
                                   (Math_floor (Num (rnd k) * Num (real (length TWEEN_OPTIONS)))),
                       p_targetPoints = Num (of_int tg)\<rparr>, k + 11)"
    using ox(1) oy(1) tg(1) c(2) mv(1) sv(1) fv(1)
    by (simp add: generateRandomCurveParameters_def Let_def split_beta min_boundary_def
        distance_between_def eval_nat_numeral)
  then show ?thesis
    using ox(2-6) oy(2,3) c(1) mv(2,3) sv(2,3) fv(2,3) tg(2,3) by blast
qed

lemma high_tier_choice:
  assumes "rnd k < 1" and "high_tier_threshold < rnd k"
  shows "fst (weightedRandomChoice rnd k [(Num 20, Num 44), (Num 45, Num 74), (Num 75, Num 99)]
                [Num (1 / 5), Num (13 / 20), Num 15]) = Some (Num 75, Num 99)"
  using assms by (simp add: weightedRandomChoice_def Let_def high_tier_threshold_def)

lemma offsetBoundaryX_value:
  assumes "finite_point f" and "finite_point t" and "unit_draws rnd"
    and "distance_between f t = Num d"
  shows "\<exists>p k' ox. generateRandomCurveParameters f t rnd k = Returns (p, k') \<and>
           p_offsetBoundaryX p = Num (max (of_int ox) (max 30 (d * 0.15))) \<and>
           20 \<le> ox \<and> ox \<le> 99 \<and> (high_tier_threshold < rnd (k + 1) \<longrightarrow> 75 \<le> ox)"
proof -
  from generated_bundle[OF assms(3), of f t k] obtain p ox a b where
    p: "generateRandomCurveParameters f t rnd k = Returns (p, k + 11)"
       "p_offsetBoundaryX p = Math_max (Num (of_int ox)) (min_boundary f t)"
       "20 \<le> ox" "ox \<le> 99"
       "fst (weightedRandomChoice rnd (k + 1)
              [(Num 20, Num 44), (Num 45, Num 74), (Num 75, Num 99)]
              [Num (1 / 5), Num (13 / 20), Num 15]) = Some (Num (of_int a), Num (of_int b))"
       "a \<le> ox" "ox \<le> b"
    by (elim exE conjE) simp
  have "p_offsetBoundaryX p = Num (max (of_int ox) (max 30 (d * 0.15)))"
    using p(2) assms(4) by (simp add: min_boundary_def)
  moreover have "75 \<le> ox" if "high_tier_threshold < rnd (k + 1)"
  proof -
    have "rnd (k + 1) < 1" using assms(3) by (simp add: unit_draws_def)
    from high_tier_choice[of rnd "k + 1", OF this that] p(5) have "a = 75" by simp
    then show ?thesis using p(6) by simp
  qed
  ultimately show ?thesis using p(1,3,4) by blast
qed

text \<open>
  Claim C5, as the code has it. The weighted choice reaches the tier [75, 99] exactly for
  the draws above \<open>0.85 / 15.85\<close>, which is at least nine tenths of the unit interval.
  For end points at a distance \<open>d\<close> with \<open>0.15 d \<le> 99\<close> the returned offset then lies in
  [75, 99]; for a larger distance the offset is \<open>0.15 d\<close>, above 99, on every draw.
\<close>

theorem offsetBoundaryX_high_tier:
  assumes "finite_point f" and "finite_point t" and "unit_draws rnd"
    and "distance_between f t = Num d"
  shows "(\<exists>p k'. generateRandomCurveParameters f t rnd k = Returns (p, k') \<and>
           (d * 0.15 \<le> 99 \<and> high_tier_threshold < rnd (k + 1) \<longrightarrow>
              75 \<le> p_offsetBoundaryX p \<and> p_offsetBoundaryX p \<le> 99) \<and>
           (99 < d * 0.15 \<longrightarrow> p_offsetBoundaryX p = Num (d * 0.15))) \<and>
         0.9 \<le> 1 - high_tier_threshold"
proof -
  from offsetBoundaryX_value[OF assms, of k] obtain p k' ox where
    p: "generateRandomCurveParameters f t rnd k = Returns (p, k')"
       "p_offsetBoundaryX p = Num (max (of_int ox) (max 30 (d * 0.15)))"
       "20 \<le> ox" "ox \<le> 99" "high_tier_threshold < rnd (k + 1) \<longrightarrow> 75 \<le> ox"
    by blast
  have "75 \<le> p_offsetBoundaryX p \<and> p_offsetBoundaryX p \<le> 99"
    if "d * 0.15 \<le> 99 \<and> high_tier_threshold < rnd (k + 1)"
    using that p(2-5) by simp
  moreover have "p_offsetBoundaryX p = Num (d * 0.15)" if "99 < d * 0.15"
    using that p(2-4) by (simp add: max_def)
  moreover have "0.9 \<le> 1 - high_tier_threshold"
    by (simp add: high_tier_threshold_def)
  ultimately show ?thesis using p(1) by blast
qed

lemma distance_300_400_Num: "distance_between (Vector 0 0) (Vector 300 400) = Num 500"
  using distance_300_400 by simp

lemma unit_draws_half: "unit_draws (\<lambda>n. 1 / 2)"
  by (simp add: unit_draws_def)

text \<open>A movement of 500 pixels, every draw one half: the offset lies in [75, 99].\<close>

theorem offsetBoundaryX_high_tier_witness:
  "\<exists>p k'. generateRandomCurveParameters (Vector 0 0) (Vector 300 400) (\<lambda>n. 1 / 2) 0 = Returns (p, k') \<and>
          75 \<le> p_offsetBoundaryX p \<and> p_offsetBoundaryX p \<le> 99"
proof -
  have f: "finite_point (Vector 0 0)" "finite_point (Vector 300 400)"
    by (simp_all add: finite_point_def)
  have "(500::real) * 0.15 \<le> 99 \<and> high_tier_threshold < (\<lambda>n::nat. 1 / 2) (0 + 1)"
    by (simp add: high_tier_threshold_def)
  with offsetBoundaryX_high_tier[OF f unit_draws_half distance_300_400_Num, of 0]
  show ?thesis by blast
qed

lemma distance_1000: "distance_between (Vector 0 0) (Vector 1000 0) = Num 1000"
proof -
  have "((1000::real) - 0)\<^sup>2 + (0 - 0)\<^sup>2 < OVERFLOW"
    by (simp add: OVERFLOW_def)
  from distance_between_Num[OF this]
  have "distance_between (Vector (Num 0) (Num 0)) (Vector (Num 1000) (Num 0)) =
          Num (sqrt ((1000 - 0)\<^sup>2 + (0 - 0)\<^sup>2))" .
  then show ?thesis by simp
qed

text \<open>
  Claim C5 as stated fails for a long movement: between (0, 0) and (1000, 0) the returned
  offset is 150 when every draw is one half, and no sequence of draws at all gives an
  offset in [75, 99].
\<close>

theorem offsetBoundaryX_counterexample:
  "(\<exists>p k'. generateRandomCurveParameters (Vector 0 0) (Vector 1000 0) (\<lambda>n. 1 / 2) 0 = Returns (p, k') \<and>
           p_offsetBoundaryX p = 150) \<and>
   \<not> (\<exists>rnd p k'. unit_draws rnd \<and>
          generateRandomCurveParameters (Vector 0 0) (Vector 1000 0) rnd 0 = Returns (p, k') \<and>
          75 \<le> p_offsetBoundaryX p \<and> p_offsetBoundaryX p \<le> 99)"
proof -
  have f: "finite_point (Vector 0 0)" "finite_point (Vector 1000 0)"
    by (simp_all add: finite_point_def)
  have always: "p_offsetBoundaryX p = Num 150"
    if "unit_draws rnd"
      and "generateRandomCurveParameters (Vector 0 0) (Vector 1000 0) rnd 0 = Returns (p, k')"
    for rnd p k'
  proof -
    from offsetBoundaryX_value[OF f that(1) distance_1000, of 0]
    obtain p' k'' ox where
      q: "generateRandomCurveParameters (Vector 0 0) (Vector 1000 0) rnd 0 = Returns (p', k'')"
      "p_offsetBoundaryX p' = Num (max (of_int ox) (max 30 (1000 * 0.15)))"
      "20 \<le> ox" "ox \<le> 99" by blast
    from q(1) that(2) have "p' = p" by simp
    then show ?thesis using q(2-4) by (simp add: max_def)
  qed
  from offsetBoundaryX_value[OF f unit_draws_half distance_1000, of 0] obtain p k' where
    "generateRandomCurveParameters (Vector 0 0) (Vector 1000 0) (\<lambda>n. 1 / 2) 0 = Returns (p, k')"
    by blast
  with always[OF unit_draws_half this] have
    "\<exists>p k'. generateRandomCurveParameters (Vector 0 0) (Vector 1000 0) (\<lambda>n. 1 / 2) 0 = Returns (p, k') \<and>
           p_offsetBoundaryX p = 150" by auto
  moreover have "\<not> (\<exists>rnd p k'. unit_draws rnd \<and>
          generateRandomCurveParameters (Vector 0 0) (Vector 1000 0) rnd 0 = Returns (p, k') \<and>
          75 \<le> p_offsetBoundaryX p \<and> p_offsetBoundaryX p \<le> 99)"
    using always by fastforce
  ultimately show ?thesis by blast
qed


lemma at_number_member: "at_number xs j = Some x \<Longrightarrow> x \<in> set xs"
  by (cases j) (auto simp: at_index_def split: if_splits)











section \<open>Knot placement\<close>

lemma knots_loop_snd [simp]: "snd (knots_loop rnd l r d u n k) = k + 2 * n"
  by (induction n arbitrary: k) (simp_all add: split_beta Let_def)

lemma knot_coordinate:
  assumes "0 \<le> q" and "q < 1" and "l \<le> r"
  shows "\<exists>x. Math_floor (Num q * (Num r - Num l + 1)) + Num l = Num x \<and> l \<le> x \<and> x < r + 1 \<and>
           (of_int \<lfloor>r - l\<rfloor> = r - l \<longrightarrow> x \<le> r)"
proof -
  let ?w = "r - l + 1"
  let ?n = "\<lfloor>q * ?w\<rfloor>"
  have w: "0 < ?w" using assms(3) by simp
  have "0 \<le> q * ?w" using assms(1) w by simp
  then have lo: "0 \<le> ?n" by simp
  have lt: "q * ?w < ?w" using assms(2) w by simp
  have "of_int ?n \<le> q * ?w" by simp
  with lt have up: "of_int ?n < ?w" by linarith
  have int: "of_int ?n \<le> r - l" if "of_int \<lfloor>r - l\<rfloor> = r - l"
  proof -
    have "?w = of_int \<lfloor>r - l\<rfloor> + 1" using that by linarith
    with lt have "q * ?w < of_int \<lfloor>r - l\<rfloor> + 1" by linarith
    then have "q * ?w < of_int (\<lfloor>r - l\<rfloor> + 1)" by simp
    then have "?n < \<lfloor>r - l\<rfloor> + 1" by (simp only: floor_less_iff)
    then have "?n \<le> \<lfloor>r - l\<rfloor>" by simp
    then have "real_of_int ?n \<le> of_int \<lfloor>r - l\<rfloor>" by (simp only: of_int_le_iff)
    then show ?thesis using that by linarith
  qed
  have "Math_floor (Num q * (Num r - Num l + 1)) + Num l = Num (of_int ?n + l)"
    by simp
  moreover have "l \<le> of_int ?n + l" using lo by simp
  moreover have "of_int ?n + l < r + 1" using up by simp
  moreover have "of_int \<lfloor>r - l\<rfloor> = r - l \<longrightarrow> of_int ?n + l \<le> r" using int by auto
  ultimately show ?thesis by blast
qed

lemma knots_loop_within:
  assumes "unit_draws rnd" and "l \<le> r" and "d \<le> u"
  shows "list_all (knot_within l r d u) (fst (knots_loop rnd (Num l) (Num r) (Num d) (Num u) n k))"
proof (induction n arbitrary: k)
  case 0
  show ?case by simp
next
  case (Suc n)
  have q: "0 \<le> rnd j" "rnd j < 1" for j using assms(1) by (simp_all add: unit_draws_def)
  from knot_coordinate[OF q assms(2), of k] obtain x where
    x: "Math_floor (Num (rnd k) * (Num r - Num l + 1)) + Num l = Num x" "l \<le> x" "x < r + 1"
       "of_int \<lfloor>r - l\<rfloor> = r - l \<longrightarrow> x \<le> r" by blast
  from knot_coordinate[OF q assms(3), of "k + 1"] obtain y where
    y: "Math_floor (Num (rnd (k + 1)) * (Num u - Num d + 1)) + Num d = Num y" "d \<le> y" "y < u + 1"
       "of_int \<lfloor>u - d\<rfloor> = u - d \<longrightarrow> y \<le> u" by blast
  have "knot_within l r d u (Point (Vector (Num x) (Num y)))"
    unfolding knot_within_def using x(2-4) y(2-4) by blast
  then show ?case using Suc[of "k + 2"] x(1) y(1)
    by (simp add: split_beta Let_def del: plus_jsnum.simps times_jsnum.simps Math_floor.simps minus_Num one_Num)
qed

text \<open>
  What does hold of the knots, for finite ordered boundaries and a natural number of
  knots: exactly that many are returned, each at least at the lower boundary and less
  than one above the upper boundary, and inside the boundaries when their distance is an
  integer.
\<close>

lemma generateInternalKnots_within:
  assumes "unit_draws rnd" and "l \<le> r" and "d \<le> u"
  shows "\<exists>knots. generateInternalKnots rnd k (Num l) (Num r) (Num d) (Num u) (Num (real n))
                    = Returns (knots, k + 2 * n) \<and>
                 length knots = n \<and> list_all (knot_within l r d u) knots"
proof -
  let ?loop = "knots_loop rnd (Num l) (Num r) (Num d) (Num u) n k"
  have "generateInternalKnots rnd k (Num l) (Num r) (Num d) (Num u) (Num (real n)) = Returns ?loop"
    using assms(2,3) by (simp add: generateInternalKnots_def checkIfNumeric_def Let_def not_less)
  moreover have "?loop = (fst ?loop, k + 2 * n)"
    using knots_loop_snd[of rnd "Num l" "Num r" "Num d" "Num u" n k] by (metis prod.collapse)
  ultimately show ?thesis
    using knots_loop_within[OF assms, of n k] knots_loop_length[of rnd "Num l" "Num r" "Num d" "Num u" n k]
    by (intro exI[of _ "fst ?loop"]) simp
qed

text \<open>
  Claim C6 fails on the code. With the boundaries 0 and 0.5 on both axes, one knot and
  the draw 0.9, the knot is (1, 1): the boundaries are numeric and ordered, and the knot
  lies outside them.
\<close>

theorem generateInternalKnots_overshoots:
  "generateInternalKnots (\<lambda>n. 9 / 10) 0 0 0.5 0 0.5 1 = Returns ([Point (Vector 1 1)], 2) \<and>
   (0::jsnum) \<le> 0.5 \<and> \<not> (1::jsnum) \<le> 0.5"
  by (simp add: generateInternalKnots_def checkIfNumeric_def Let_def eval_nat_numeral)

text \<open>The returned knot list has a point right of the right boundary.\<close>

theorem generateInternalKnots_overshoots_witness:
  "\<exists>knots k'. generateInternalKnots (\<lambda>n. 9 / 10) 0 0 0.5 0 0.5 1 = Returns (knots, k') \<and>
      \<not> list_all (\<lambda>s. vx (the_point s) \<le> 0.5) knots"
  using generateInternalKnots_overshoots by simp

end
